theory Spec2Isabelle
  imports Main "HOL-Library.Multiset"
begin

section \<open>Data model of the notes store (App.js)\<close>

text \<open>
  Strings are lists of code units; the model covers the code units below 256, which are
  the characters of type \<^typ>\<open>char\<close>. A timestamp field holds the time value in
  milliseconds of the ISO-8601 string that \<^verbatim>\<open>toISOString\<close> renders and that
  \<^verbatim>\<open>new Date(s)\<close> reads back.
\<close>

type_synonym timestamp = int

record Note =
  id_note :: string
  title :: string
  content :: string
  tags :: "string list"
  createdAt :: timestamp
  updatedAt :: timestamp
  archived :: bool

text \<open>The state held by \<^verbatim>\<open>NotesProvider\<close>: one field per \<^verbatim>\<open>useState\<close>.\<close>

record store =
  "notes" :: "Note list"
  theme :: string
  query :: string
  sortBy :: string
  selectedId :: "string option"

text \<open>
  The argument of \<^verbatim>\<open>createNote\<close>. A field that is absent is \<open>None\<close>;
  \<open>data_tags\<close> is \<open>None\<close> as well when the given value is not an array.
\<close>

record note_data =
  data_title :: "string option"
  data_content :: "string option"
  data_tags :: "string list option"

text \<open>
  The second argument of \<^verbatim>\<open>updateNote\<close>, an object that is spread over the note:
  any field of a note may be present in it.
\<close>

record note_updates =
  upd_id :: "string option"
  upd_title :: "string option"
  upd_content :: "string option"
  upd_tags :: "string list option"
  upd_createdAt :: "timestamp option"
  upd_updatedAt :: "timestamp option"
  upd_archived :: "bool option"

text \<open>
  What \<^verbatim>\<open>createNote\<close> reads from its environment: the clock at
  \<^verbatim>\<open>new Date()\<close>, the clock at \<^verbatim>\<open>Date.now()\<close> inside \<^verbatim>\<open>genId\<close>, and the
  string \<^verbatim>\<open>Math.random().toString(36).slice(2, 8)\<close>.
\<close>

record environment =
  env_now :: timestamp
  env_idNow :: int
  env_random :: string

section \<open>String primitives\<close>

definition isWhiteSpace :: "char \<Rightarrow> bool" where
  "isWhiteSpace c = ((of_char c :: nat) \<in> {9, 10, 11, 12, 13, 32, 160})"

definition trim :: "string \<Rightarrow> string" where
  "trim s = rev (dropWhile isWhiteSpace (rev (dropWhile isWhiteSpace s)))"

definition lowerChar :: "char \<Rightarrow> char" where
  "lowerChar c =
     (let n = (of_char c :: nat)
      in if (65 \<le> n \<and> n \<le> 90) \<or> (192 \<le> n \<and> n \<le> 222 \<and> n \<noteq> 215)
         then char_of (n + 32) else c)"

definition toLowerCase :: "string \<Rightarrow> string" where
  "toLowerCase s = map lowerChar s"

fun startsWith :: "string \<Rightarrow> string \<Rightarrow> bool" where
  "startsWith s [] = True"
| "startsWith [] (q # qs) = False"
| "startsWith (c # cs) (q # qs) = (c = q \<and> startsWith cs qs)"

text \<open>\<^verbatim>\<open>s.includes(q)\<close>: \<open>q\<close> occurs in \<open>s\<close> at some position.\<close>

fun includes_str :: "string \<Rightarrow> string \<Rightarrow> bool" where
  "includes_str [] q = (q = [])"
| "includes_str (c # cs) q = (startsWith (c # cs) q \<or> includes_str cs q)"

text \<open>Decimal rendering of a number in a template literal.\<close>

definition digit :: "nat \<Rightarrow> char" where
  "digit d = ''0123456789'' ! d"

fun showNat :: "nat \<Rightarrow> string" where
  "showNat n = (if n < 10 then [digit n] else showNat (n div 10) @ [digit (n mod 10)])"

declare showNat.simps [simp del]

definition showInt :: "int \<Rightarrow> string" where
  "showInt i = (if i < 0 then CHR ''-'' # showNat (nat (- i)) else showNat (nat i))"

text \<open>The characters that the decimal rendering produces.\<close>

definition isDigit :: "char \<Rightarrow> bool" where
  "isDigit c = (c \<in> set ''0123456789'')"

section \<open>Operations of the store\<close>

definition genId :: "int \<Rightarrow> string \<Rightarrow> string" where
  "genId now rnd = showInt now @ ''-'' @ rnd"

definition newNote :: "environment \<Rightarrow> note_data \<Rightarrow> Note" where
  "newNote env data =
     \<lparr> id_note = genId (env_idNow env) (env_random env),
       title = (case data_title data of
                  None \<Rightarrow> ''Untitled''
                | Some t \<Rightarrow> (if trim t = [] then ''Untitled'' else trim t)),
       content = (case data_content data of
                    None \<Rightarrow> []
                  | Some c \<Rightarrow> (if c = [] then [] else c)),
       tags = (case data_tags data of None \<Rightarrow> [] | Some ts \<Rightarrow> ts),
       createdAt = env_now env,
       updatedAt = env_now env,
       archived = False \<rparr>"

text \<open>\<^verbatim>\<open>createNote\<close> returns the new note; the second component is the next state.\<close>

definition createNote :: "environment \<Rightarrow> note_data \<Rightarrow> store \<Rightarrow> Note \<times> store" where
  "createNote env data s =
     (let n = newNote env data
      in (n, s\<lparr> notes := n # notes s, selectedId := Some (id_note n) \<rparr>))"

text \<open>
  \<^verbatim>\<open>{ ...n, ...updates, updatedAt: now }\<close>. The clock is read inside the callback of
  \<^verbatim>\<open>map\<close>; the model takes one reading for the whole call.
\<close>

definition spreadUpdates :: "timestamp \<Rightarrow> note_updates \<Rightarrow> Note \<Rightarrow> Note" where
  "spreadUpdates now u n =
     \<lparr> id_note = (case upd_id u of None \<Rightarrow> id_note n | Some v \<Rightarrow> v),
       title = (case upd_title u of None \<Rightarrow> title n | Some v \<Rightarrow> v),
       content = (case upd_content u of None \<Rightarrow> content n | Some v \<Rightarrow> v),
       tags = (case upd_tags u of None \<Rightarrow> tags n | Some v \<Rightarrow> v),
       createdAt = (case upd_createdAt u of None \<Rightarrow> createdAt n | Some v \<Rightarrow> v),
       updatedAt = now,
       archived = (case upd_archived u of None \<Rightarrow> archived n | Some v \<Rightarrow> v) \<rparr>"

definition updateNote :: "timestamp \<Rightarrow> string \<Rightarrow> note_updates \<Rightarrow> store \<Rightarrow> store" where
  "updateNote now i u s =
     s\<lparr> notes := map (\<lambda>n. if id_note n = i then spreadUpdates now u n else n) (notes s) \<rparr>"

definition toggleArchive :: "timestamp \<Rightarrow> string \<Rightarrow> store \<Rightarrow> store" where
  "toggleArchive now i s =
     s\<lparr> notes := map (\<lambda>n. if id_note n = i
                           then n\<lparr> archived := \<not> archived n, updatedAt := now \<rparr>
                           else n) (notes s) \<rparr>"

definition deleteNote :: "string \<Rightarrow> store \<Rightarrow> store" where
  "deleteNote i s =
     s\<lparr> notes := filter (\<lambda>n. id_note n \<noteq> i) (notes s),
        selectedId := (if selectedId s = Some i then None else selectedId s) \<rparr>"

text \<open>The first argument is the answer of \<^verbatim>\<open>window.confirm\<close>.\<close>

definition clearAll :: "bool \<Rightarrow> store \<Rightarrow> store" where
  "clearAll confirmed s = (if confirmed then s\<lparr> notes := [], selectedId := None \<rparr> else s)"

text \<open>The four setters are the setters that \<^verbatim>\<open>useState\<close> returns.\<close>

definition setTheme :: "string \<Rightarrow> store \<Rightarrow> store" where
  "setTheme t s = s\<lparr> theme := t \<rparr>"

definition setQuery :: "string \<Rightarrow> store \<Rightarrow> store" where
  "setQuery q s = s\<lparr> query := q \<rparr>"

definition setSortBy :: "string \<Rightarrow> store \<Rightarrow> store" where
  "setSortBy k s = s\<lparr> sortBy := k \<rparr>"

definition setSelectedId :: "string option \<Rightarrow> store \<Rightarrow> store" where
  "setSelectedId i s = s\<lparr> selectedId := i \<rparr>"

text \<open>
  The state at mount. The arguments are what \<^verbatim>\<open>localStorage\<close> holds: the parsed
  notes (\<open>None\<close> when the key is absent, empty or unparsable) and the theme string.
\<close>

definition initStore :: "Note list option \<Rightarrow> string option \<Rightarrow> store" where
  "initStore storedNotes storedTheme =
     \<lparr> notes = (case storedNotes of None \<Rightarrow> [] | Some ns \<Rightarrow> ns),
       theme = (case storedTheme of
                  None \<Rightarrow> ''light''
                | Some t \<Rightarrow> (if t = [] then ''light'' else t)),
       query = [],
       sortBy = ''updatedAt'',
       selectedId = None \<rparr>"

text \<open>
  The objects that \<^verbatim>\<open>NoteEditor\<close> passes to \<^verbatim>\<open>updateNote\<close>:
  \<^verbatim>\<open>{ title }\<close>, \<^verbatim>\<open>{ content }\<close> and \<^verbatim>\<open>{ tags }\<close>, built on the empty object.
\<close>

definition emptyUpdates :: note_updates where
  "emptyUpdates =
     \<lparr> upd_id = None, upd_title = None, upd_content = None, upd_tags = None,
       upd_createdAt = None, upd_updatedAt = None, upd_archived = None \<rparr>"

definition titleUpdate :: "string \<Rightarrow> note_updates" where
  "titleUpdate v = emptyUpdates\<lparr> upd_title := Some v \<rparr>"

definition contentUpdate :: "string \<Rightarrow> note_updates" where
  "contentUpdate v = emptyUpdates\<lparr> upd_content := Some v \<rparr>"

definition tagsUpdate :: "string list \<Rightarrow> note_updates" where
  "tagsUpdate v = emptyUpdates\<lparr> upd_tags := Some v \<rparr>"

section \<open>The derived view\<close>

text \<open>The callback of \<^verbatim>\<open>notes.filter\<close>, and the filtering step.\<close>

definition matchesQuery :: "string \<Rightarrow> Note \<Rightarrow> bool" where
  "matchesQuery q n =
     (includes_str (toLowerCase (title n)) q \<or>
      includes_str (toLowerCase (content n)) q \<or>
      list_ex (\<lambda>t. includes_str (toLowerCase t) q) (tags n))"

definition filterNotes :: "string \<Rightarrow> Note list \<Rightarrow> Note list" where
  "filterNotes qry ns =
     (let q = toLowerCase (trim qry)
      in if q \<noteq> [] then filter (matchesQuery q) ns else ns)"

text \<open>
  The comparator given to \<^verbatim>\<open>sort\<close>. \<^verbatim>\<open>localeCompare\<close> is the platform's collation
  and is a parameter; the sort key is compared as a string, so every key other than
  \<^verbatim>\<open>title\<close> and \<^verbatim>\<open>createdAt\<close> orders by \<^verbatim>\<open>updatedAt\<close>.
\<close>

definition compareNotes :: "(string \<Rightarrow> string \<Rightarrow> int) \<Rightarrow> string \<Rightarrow> Note \<Rightarrow> Note \<Rightarrow> int" where
  "compareNotes localeCompare sb a b =
     (if sb = ''title'' then localeCompare (title a) (title b)
      else if sb = ''createdAt'' then createdAt b - createdAt a
      else updatedAt b - updatedAt a)"

text \<open>
  \<^verbatim>\<open>Array.prototype.sort\<close> with a comparator: a stable sort, here by insertion. An
  element goes before the first element that it does not compare greater than.
\<close>

fun insertBy :: "('a \<Rightarrow> 'a \<Rightarrow> int) \<Rightarrow> 'a \<Rightarrow> 'a list \<Rightarrow> 'a list" where
  "insertBy c x [] = [x]"
| "insertBy c x (y # ys) = (if c x y \<le> 0 then x # y # ys else y # insertBy c x ys)"

definition sort_cmp :: "('a \<Rightarrow> 'a \<Rightarrow> int) \<Rightarrow> 'a list \<Rightarrow> 'a list" where
  "sort_cmp c xs = foldr (insertBy c) xs []"

text \<open>
  What the language requires of a comparator for the result of \<^verbatim>\<open>sort\<close> to be
  determined: the sign flips when the arguments are swapped, and the order is transitive.
\<close>

definition consistentComparator :: "('a \<Rightarrow> 'a \<Rightarrow> int) \<Rightarrow> bool" where
  "consistentComparator c =
     ((\<forall>a b. (c a b < 0) = (0 < c b a)) \<and>
      (\<forall>a b d. c a b \<le> 0 \<and> c b d \<le> 0 \<longrightarrow> c a d \<le> 0))"

text \<open>A collation used in the examples: comparison by code units.\<close>

fun codeUnitCompare :: "string \<Rightarrow> string \<Rightarrow> int" where
  "codeUnitCompare [] [] = 0"
| "codeUnitCompare [] (y # ys) = - 1"
| "codeUnitCompare (x # xs) [] = 1"
| "codeUnitCompare (x # xs) (y # ys) =
     (if (of_char x :: nat) < of_char y then - 1
      else if (of_char y :: nat) < of_char x then 1
      else codeUnitCompare xs ys)"

text \<open>
  Arrays live in a heap, a list of arrays addressed by position. \<^verbatim>\<open>filter\<close> and the
  spread \<^verbatim>\<open>[...arr]\<close> allocate a new array; \<^verbatim>\<open>sort\<close> writes the array it is called
  on. When the query is empty \<^verbatim>\<open>arr\<close> is the notes array itself.
\<close>

type_synonym ref = nat
type_synonym heap = "Note list list"

definition alloc :: "heap \<Rightarrow> Note list \<Rightarrow> heap \<times> ref" where
  "alloc h xs = (h @ [xs], length h)"

definition filteredSortedNotes ::
  "(string \<Rightarrow> string \<Rightarrow> int) \<Rightarrow> heap \<Rightarrow> ref \<Rightarrow> string \<Rightarrow> string \<Rightarrow> heap \<times> ref" where
  "filteredSortedNotes localeCompare h notesRef qry sb =
     (let q = toLowerCase (trim qry);
          (h1, arr) = (if q \<noteq> [] then alloc h (filter (matchesQuery q) (h ! notesRef))
                       else (h, notesRef));
          (h2, sorted) = alloc h1 (h1 ! arr);
          h3 = h2[sorted := sort_cmp (compareNotes localeCompare sb) (h2 ! sorted)]
      in (h3, sorted))"

text \<open>The array that \<^verbatim>\<open>filteredSortedNotes\<close> returns, as a function of the state.\<close>

definition visibleNotes :: "(string \<Rightarrow> string \<Rightarrow> int) \<Rightarrow> store \<Rightarrow> Note list" where
  "visibleNotes localeCompare s =
     sort_cmp (compareNotes localeCompare (sortBy s)) (filterNotes (query s) (notes s))"

section \<open>The tag editor\<close>

text \<open>
  \<^verbatim>\<open>Array.from(new Set(xs))\<close>: a set keeps its elements in insertion order, and
  adding an element that is already there changes nothing.
\<close>

definition setAdd :: "string list \<Rightarrow> string \<Rightarrow> string list" where
  "setAdd acc x = (if x \<in> set acc then acc else acc @ [x])"

definition arrayFromSet :: "string list \<Rightarrow> string list" where
  "arrayFromSet xs = foldl setAdd [] xs"

text \<open>
  \<^verbatim>\<open>addTag\<close> and \<^verbatim>\<open>removeTag\<close> of \<^verbatim>\<open>TagInput\<close>, as the array handed to
  \<^verbatim>\<open>onChange\<close>; \<open>None\<close> when \<^verbatim>\<open>addTag\<close> returns before calling it.
\<close>

definition addTag :: "string list \<Rightarrow> string \<Rightarrow> string list option" where
  "addTag tagValue text =
     (let t = trim text
      in if t = [] then None else Some (arrayFromSet (tagValue @ [t])))"

definition removeTag :: "string list \<Rightarrow> string \<Rightarrow> string list" where
  "removeTag tagValue t = filter (\<lambda>x. x \<noteq> t) tagValue"

text \<open>
  \<^verbatim>\<open>NoteEditor\<close> shows the tag editor for the note that
  \<^verbatim>\<open>notes.find(n => n.id === selectedId)\<close> returns, and nothing when there is none.
\<close>

definition selectedNote :: "store \<Rightarrow> Note option" where
  "selectedNote s =
     (case selectedId s of
        None \<Rightarrow> None
      | Some i \<Rightarrow> find (\<lambda>n. id_note n = i) (notes s))"

definition onTags :: "timestamp \<Rightarrow> Note \<Rightarrow> string list \<Rightarrow> store \<Rightarrow> store" where
  "onTags now n tgs s = updateNote now (id_note n) (tagsUpdate tgs) s"

definition editorAddTag :: "timestamp \<Rightarrow> string \<Rightarrow> store \<Rightarrow> store" where
  "editorAddTag now text s =
     (case selectedNote s of
        None \<Rightarrow> s
      | Some n \<Rightarrow> (case addTag (tags n) text of
                     None \<Rightarrow> s
                   | Some nextTags \<Rightarrow> onTags now n nextTags s))"

definition editorRemoveTag :: "timestamp \<Rightarrow> string \<Rightarrow> store \<Rightarrow> store" where
  "editorRemoveTag now t s =
     (case selectedNote s of
        None \<Rightarrow> s
      | Some n \<Rightarrow> onTags now n (removeTag (tags n) t) s)"

text \<open>The invariant of the data model on the tags of every note.\<close>

definition tagsDeduplicated :: "store \<Rightarrow> bool" where
  "tagsDeduplicated s = (\<forall>n \<in> set (notes s). distinct (tags n))"

section \<open>Sample states\<close>

text \<open>
  The scenario of the specification: note A with title Alpha is created in the empty
  store, then note B with title Beta.
\<close>

definition envA :: environment where
  "envA = \<lparr> env_now = 1000, env_idNow = 1000, env_random = ''a1b2c3'' \<rparr>"

definition envB :: environment where
  "envB = \<lparr> env_now = 2000, env_idNow = 2001, env_random = ''d4e5f6'' \<rparr>"

definition noteA :: Note where
  "noteA = fst (createNote envA
     \<lparr> data_title = Some ''Alpha'', data_content = None, data_tags = None \<rparr>
     (initStore None None))"

definition storeA :: store where
  "storeA = snd (createNote envA
     \<lparr> data_title = Some ''Alpha'', data_content = None, data_tags = None \<rparr>
     (initStore None None))"

definition noteB :: Note where
  "noteB = fst (createNote envB
     \<lparr> data_title = Some ''  Beta '', data_content = Some ''second note'',
       data_tags = Some [''Work'', ''todo''] \<rparr> storeA)"

definition storeAB :: store where
  "storeAB = snd (createNote envB
     \<lparr> data_title = Some ''  Beta '', data_content = Some ''second note'',
       data_tags = Some [''Work'', ''todo''] \<rparr> storeA)"

text \<open>
  A state in which two notes carry one id: a patch gives note A the id of note B.
\<close>

definition storeDup :: store where
  "storeDup = updateNote 3000 (id_note noteA)
     (emptyUpdates\<lparr> upd_id := Some (id_note noteB) \<rparr>) storeAB"

section \<open>Facts about lists used below\<close>

lemma map_if_unchanged:
  "i \<notin> f ` set xs \<Longrightarrow> map (\<lambda>n. if f n = i then g n else n) xs = xs"
  by (induction xs) auto

lemma filter_unchanged:
  "i \<notin> f ` set xs \<Longrightarrow> filter (\<lambda>n. f n \<noteq> i) xs = xs"
  by (induction xs) auto

lemma map_if_distinct:
  assumes "distinct (map f xs)" and "j < length xs" and "f (xs ! j) = i"
  shows "map (\<lambda>n. if f n = i then g n else n) xs = xs[j := g (xs ! j)]"
proof (rule nth_equalityI)
  show "length (map (\<lambda>n. if f n = i then g n else n) xs) = length (xs[j := g (xs ! j)])"
    by simp
next
  fix k
  assume "k < length (map (\<lambda>n. if f n = i then g n else n) xs)"
  then have k: "k < length xs" by simp
  show "map (\<lambda>n. if f n = i then g n else n) xs ! k = xs[j := g (xs ! j)] ! k"
  proof (cases "k = j")
    case True
    with assms k show ?thesis by simp
  next
    case False
    from assms(1) k assms(2) False have "f (xs ! k) \<noteq> f (xs ! j)"
      by (metis distinct_conv_nth length_map nth_map)
    with assms k False show ?thesis by simp
  qed
qed

lemma filter_distinct_split:
  assumes "distinct (map f xs)" and "i \<in> f ` set xs"
  shows "\<exists>pre x post. xs = pre @ x # post \<and> f x = i \<and>
           filter (\<lambda>n. f n \<noteq> i) xs = pre @ post"
proof -
  from assms(2) obtain x where "x \<in> set xs" and fx: "f x = i" by auto
  then obtain pre post where xs: "xs = pre @ x # post" by (meson split_list)
  from assms(1) xs fx have "i \<notin> f ` set pre" and "i \<notin> f ` set post"
    by auto
  then have "filter (\<lambda>n. f n \<noteq> i) pre = pre" and "filter (\<lambda>n. f n \<noteq> i) post = post"
    by (simp_all add: filter_unchanged)
  with xs fx show ?thesis by auto
qed

section \<open>Facts about the string primitives\<close>

lemma below_ten: "(d::nat) < 10 \<Longrightarrow> d = 0 \<or> d = 1 \<or> d = 2 \<or> d = 3 \<or> d = 4 \<or> d = 5 \<or> d = 6 \<or> d = 7 \<or> d = 8 \<or> d = 9"
  by arith

lemma digit_isDigit:
  assumes "d < 10" shows "isDigit (digit d)"
  using below_ten [OF assms] by (elim disjE) (simp_all add: digit_def isDigit_def)

lemma digit_inj: 
  assumes "a < 10" and "b < 10" and "digit a = digit b" shows "a = b"
proof -
  have val: "(of_char (digit d) :: nat) = 48 + d" if "d < 10" for d
  proof -
    from below_ten [OF that] show ?thesis
      by (elim disjE) (simp_all add: digit_def)
  qed
  from assms(3) have "(of_char (digit a) :: nat) = of_char (digit b)" by simp
  with val [OF assms(1)] val [OF assms(2)] show ?thesis by linarith
qed

lemma showNat_nonempty: "showNat n \<noteq> []" "[] \<noteq> showNat n"
  by (subst showNat.simps, simp)+

lemma showNat_digits: "c \<in> set (showNat n) \<Longrightarrow> isDigit c"
proof (induction n rule: showNat.induct)
  case (1 n)
  show ?case
  proof (cases "n < 10")
    case True
    with "1.prems" show ?thesis
      by (simp add: showNat.simps [of n] digit_isDigit)
  next
    case False
    with "1.prems" have "c \<in> set (showNat (n div 10)) \<or> c = digit (n mod 10)"
      by (auto simp add: showNat.simps [of n])
    with False "1.IH" show ?thesis
      by (auto simp add: digit_isDigit)
  qed
qed

lemma showNat_inj: "showNat a = showNat b \<Longrightarrow> a = b"
proof (induction a arbitrary: b rule: showNat.induct)
  case (1 n)
  show ?case
  proof (cases "n < 10")
    case n: True
    show ?thesis
    proof (cases "b < 10")
      case True
      with n "1.prems" show ?thesis
        by (simp add: showNat.simps [of n] showNat.simps [of b] digit_inj)
    next
      case False
      with n "1.prems" show ?thesis
        by (simp add: showNat.simps [of n] showNat.simps [of b] showNat_nonempty)
    qed
  next
    case n: False
    show ?thesis
    proof (cases "b < 10")
      case True
      with n "1.prems" show ?thesis
        by (simp add: showNat.simps [of n] showNat.simps [of b] showNat_nonempty)
    next
      case False
      with n "1.prems" have eq: "showNat (n div 10) = showNat (b div 10)"
        and d: "digit (n mod 10) = digit (b mod 10)"
        by (simp_all add: showNat.simps [of n] showNat.simps [of b])
      from "1.IH" [OF n eq] have "n div 10 = b div 10" .
      moreover from d have "n mod 10 = b mod 10"
        by (simp add: digit_inj)
      ultimately show ?thesis
        by (metis div_mult_mod_eq)
    qed
  qed
qed

lemma minus_not_digit: "\<not> isDigit CHR ''-''"
  by (simp add: isDigit_def)

lemma digits_then_minus:
  assumes "\<forall>c \<in> set xs. isDigit c" and "\<forall>c \<in> set ys. isDigit c"
    and "xs @ CHR ''-'' # r = ys @ CHR ''-'' # r'"
  shows "xs = ys \<and> r = r'"
proof -
  have "takeWhile isDigit (xs @ CHR ''-'' # r) = xs"
    using assms(1) by (simp add: takeWhile_append2 minus_not_digit)
  moreover have "takeWhile isDigit (ys @ CHR ''-'' # r') = ys"
    using assms(2) by (simp add: takeWhile_append2 minus_not_digit)
  ultimately have "xs = ys" using assms(3) by simp
  with assms(3) show ?thesis by simp
qed

lemma genId_inj: "genId t r = genId t' r' \<Longrightarrow> t = t' \<and> r = r'"
proof -
  assume eq: "genId t r = genId t' r'"
  have dg: "\<forall>c \<in> set (showNat n). isDigit c" for n
    using showNat_digits by blast
  have hd: "showNat n @ rest \<noteq> CHR ''-'' # zs" for n rest zs
  proof
    assume a: "showNat n @ rest = CHR ''-'' # zs"
    obtain c cs where "showNat n = c # cs"
      using showNat_nonempty(1) [of n] by (cases "showNat n") auto
    with a have "CHR ''-'' \<in> set (showNat n)" by simp
    with showNat_digits minus_not_digit show False by blast
  qed
  consider (nn) "t < 0" "t' < 0" | (np) "t < 0" "\<not> t' < 0"
    | (pn) "\<not> t < 0" "t' < 0" | (pp) "\<not> t < 0" "\<not> t' < 0"
    by blast
  then show ?thesis
  proof cases
    case nn
    with eq have "showNat (nat (- t)) @ CHR ''-'' # r = showNat (nat (- t')) @ CHR ''-'' # r'"
      by (simp add: genId_def showInt_def)
    with digits_then_minus [OF dg dg] have "showNat (nat (- t)) = showNat (nat (- t'))" and "r = r'"
      by blast+
    with showNat_inj nn show ?thesis by fastforce
  next
    case np
    with eq have "showNat (nat t') @ CHR ''-'' # r' = CHR ''-'' # showNat (nat (- t)) @ CHR ''-'' # r"
      by (simp add: genId_def showInt_def)
    with hd show ?thesis by blast
  next
    case pn
    with eq have "showNat (nat t) @ CHR ''-'' # r = CHR ''-'' # showNat (nat (- t')) @ CHR ''-'' # r'"
      by (simp add: genId_def showInt_def)
    with hd show ?thesis by blast
  next
    case pp
    with eq have "showNat (nat t) @ CHR ''-'' # r = showNat (nat t') @ CHR ''-'' # r'"
      by (simp add: genId_def showInt_def)
    with digits_then_minus [OF dg dg] have "showNat (nat t) = showNat (nat t')" and "r = r'"
      by blast+
    with showNat_inj pp show ?thesis by fastforce
  qed
qed

lemma trim_empty_iff: "trim t = [] \<longleftrightarrow> (\<forall>c \<in> set t. isWhiteSpace c)"
proof
  assume "trim t = []"
  then have "\<forall>c \<in> set (dropWhile isWhiteSpace t). isWhiteSpace c"
    by (simp add: trim_def dropWhile_eq_Nil_conv)
  then have "dropWhile isWhiteSpace t = []"
    by (metis hd_dropWhile list.set_sel(1))
  then show "\<forall>c \<in> set t. isWhiteSpace c"
    by (simp add: dropWhile_eq_Nil_conv)
next
  assume "\<forall>c \<in> set t. isWhiteSpace c"
  then show "trim t = []"
    by (auto simp add: trim_def dest: set_dropWhileD)
qed

section \<open>Facts about the filter\<close>

lemma startsWith_iff: "startsWith s q \<longleftrightarrow> (\<exists>b. s = q @ b)"
  by (induction s q rule: startsWith.induct) auto

lemma includes_str_iff: "includes_str s q \<longleftrightarrow> (\<exists>a b. s = a @ q @ b)"
proof (induction s)
  case Nil
  show ?case by auto
next
  case (Cons c cs)
  show ?case
  proof
    assume "includes_str (c # cs) q"
    then consider "startsWith (c # cs) q" | "includes_str cs q" by auto
    then show "\<exists>a b. c # cs = a @ q @ b"
    proof cases
      case 1
      then obtain b where "c # cs = q @ b" using startsWith_iff by blast
      then have "c # cs = [] @ q @ b" by simp
      then show ?thesis by blast
    next
      case 2
      with Cons.IH obtain a b where "cs = a @ q @ b" by blast
      then have "c # cs = (c # a) @ q @ b" by simp
      then show ?thesis by blast
    qed
  next
    assume "\<exists>a b. c # cs = a @ q @ b"
    then obtain a b where ab: "c # cs = a @ q @ b" by blast
    show "includes_str (c # cs) q"
    proof (cases a)
      case Nil
      with ab have "startsWith (c # cs) q" using startsWith_iff by auto
      then show ?thesis by simp
    next
      case (Cons a0 as)
      with ab have "cs = as @ q @ b" by simp
      with Cons.IH have "includes_str cs q" by blast
      then show ?thesis by simp
    qed
  qed
qed

lemma matchesQuery_iff:
  "matchesQuery q n \<longleftrightarrow>
     ((\<exists>a b. toLowerCase (title n) = a @ q @ b) \<or>
      (\<exists>a b. toLowerCase (content n) = a @ q @ b) \<or>
      (\<exists>t \<in> set (tags n). \<exists>a b. toLowerCase t = a @ q @ b))"
  by (simp add: matchesQuery_def includes_str_iff list_ex_iff)

section \<open>Facts about the sort\<close>

text \<open>
  The two conditions of \<open>consistentComparator\<close> say the same as the five conditions of
  the language standard: reflexivity and symmetry of comparing equal, and transitivity of
  comparing equal, less and greater.
\<close>

lemma consistentComparator_standard:
  "consistentComparator c \<longleftrightarrow>
     ((\<forall>a. c a a = 0) \<and>
      (\<forall>a b. c a b = 0 \<longrightarrow> c b a = 0) \<and>
      (\<forall>a b d. c a b = 0 \<and> c b d = 0 \<longrightarrow> c a d = 0) \<and>
      (\<forall>a b d. c a b < 0 \<and> c b d < 0 \<longrightarrow> c a d < 0) \<and>
      (\<forall>a b d. 0 < c a b \<and> 0 < c b d \<longrightarrow> 0 < c a d))"
proof
  assume cc: "consistentComparator c"
  have flip: "(c a b < 0) = (0 < c b a)" for a b
    using cc unfolding consistentComparator_def by blast
  have le: "c a d \<le> 0" if "c a b \<le> 0" and "c b d \<le> 0" for a b d
    using cc that unfolding consistentComparator_def by blast
  have refl: "c a a = 0" for a
    using flip [of a a] by linarith
  have sym: "c b a = 0" if "c a b = 0" for a b
    using flip [of a b] flip [of b a] that by linarith
  have eq: "c a d = 0" if "c a b = 0" and "c b d = 0" for a b d
  proof -
    have "c a d \<le> 0" using le [of a b d] that by simp
    moreover have "c d a \<le> 0" using le [of d b a] sym [OF that(1)] sym [OF that(2)] by simp
    ultimately show ?thesis using flip [of a d] by linarith
  qed
  have lt: "c a d < 0" if "c a b < 0" and "c b d < 0" for a b d
  proof (rule ccontr)
    assume "\<not> c a d < 0"
    then have "c d a \<le> 0" using flip [of a d] by linarith
    with that(1) have "c d b \<le> 0" using le [of d a b] by simp
    with that(2) show False using flip [of b d] by linarith
  qed
  have gt: "0 < c a d" if "0 < c a b" and "0 < c b d" for a b d
  proof -
    from that have "c d b < 0" and "c b a < 0" using flip by blast+
    then have "c d a < 0" by (rule lt)
    then show ?thesis using flip by blast
  qed
  from refl sym eq lt gt
  show "(\<forall>a. c a a = 0) \<and>
      (\<forall>a b. c a b = 0 \<longrightarrow> c b a = 0) \<and>
      (\<forall>a b d. c a b = 0 \<and> c b d = 0 \<longrightarrow> c a d = 0) \<and>
      (\<forall>a b d. c a b < 0 \<and> c b d < 0 \<longrightarrow> c a d < 0) \<and>
      (\<forall>a b d. 0 < c a b \<and> 0 < c b d \<longrightarrow> 0 < c a d)"
    by blast
next
  assume st: "(\<forall>a. c a a = 0) \<and>
      (\<forall>a b. c a b = 0 \<longrightarrow> c b a = 0) \<and>
      (\<forall>a b d. c a b = 0 \<and> c b d = 0 \<longrightarrow> c a d = 0) \<and>
      (\<forall>a b d. c a b < 0 \<and> c b d < 0 \<longrightarrow> c a d < 0) \<and>
      (\<forall>a b d. 0 < c a b \<and> 0 < c b d \<longrightarrow> 0 < c a d)"
  then have refl: "\<And>a. c a a = 0"
    and sym: "\<And>a b. c a b = 0 \<Longrightarrow> c b a = 0"
    and eq: "\<And>a b d. c a b = 0 \<Longrightarrow> c b d = 0 \<Longrightarrow> c a d = 0"
    and lt: "\<And>a b d. c a b < 0 \<Longrightarrow> c b d < 0 \<Longrightarrow> c a d < 0"
    and gt: "\<And>a b d. 0 < c a b \<Longrightarrow> 0 < c b d \<Longrightarrow> 0 < c a d"
    by blast+
  have f1: "0 < c b a" if "c a b < 0" for a b
  proof (rule ccontr)
    assume "\<not> 0 < c b a"
    then consider "c b a < 0" | "c b a = 0" by linarith
    then show False
    proof cases
      case 1
      with that have "c a a < 0" by (rule lt)
      with refl [of a] show False by simp
    next
      case 2
      then have "c a b = 0" by (rule sym)
      with that show False by simp
    qed
  qed
  have f2: "c a b < 0" if "0 < c b a" for a b
  proof (rule ccontr)
    assume "\<not> c a b < 0"
    then consider "0 < c a b" | "c a b = 0" by linarith
    then show False
    proof cases
      case 1
      with that have "0 < c b b" by (rule gt)
      with refl [of b] show False by simp
    next
      case 2
      then have "c b a = 0" by (rule sym)
      with that show False by simp
    qed
  qed
  have flip: "(c a b < 0) = (0 < c b a)" for a b
    using f1 f2 by blast
  have le: "c a d \<le> 0" if ab: "c a b \<le> 0" and bd: "c b d \<le> 0" for a b d
  proof (rule ccontr)
    assume "\<not> c a d \<le> 0"
    then have ad: "0 < c a d" by simp
    then have da: "c d a < 0" by (rule f2)
    from ab consider "c a b < 0" | "c a b = 0" by linarith
    then show False
    proof cases
      case 1
      with da have "c d b < 0" by (rule lt)
      then have "0 < c b d" by (rule f1)
      with bd show False by simp
    next
      case 2
      from bd consider "c b d < 0" | "c b d = 0" by linarith
      then show False
      proof cases
        case 1
        then have "c b a < 0" using da by (rule lt)
        with sym [OF 2] show False by simp
      next
        case 2
        with \<open>c a b = 0\<close> have "c a d = 0" by (rule eq)
        with ad show False by simp
      qed
    qed
  qed
  show "consistentComparator c"
    unfolding consistentComparator_def using flip le by blast
qed

lemma consistent_flip: "consistentComparator c \<Longrightarrow> 0 < c x y \<Longrightarrow> c y x \<le> 0"
  unfolding consistentComparator_def by (metis less_imp_le)

lemma consistent_trans:
  "consistentComparator c \<Longrightarrow> c x y \<le> 0 \<Longrightarrow> c y z \<le> 0 \<Longrightarrow> c x z \<le> 0"
  unfolding consistentComparator_def by blast

lemma consistent_equal:
  assumes "consistentComparator c" and "c k x = 0" and "c k y = 0"
  shows "c x y \<le> 0"
proof -
  from assms(1,2) have "\<not> 0 < c x k"
    unfolding consistentComparator_def by (metis less_irrefl)
  then have "c x k \<le> 0" by simp
  with assms(1,3) show ?thesis
    using consistent_trans [of c x k y] by simp
qed

lemma mset_insertBy: "mset (insertBy c x ys) = add_mset x (mset ys)"
  by (induction ys) simp_all

lemma set_insertBy: "set (insertBy c x ys) = insert x (set ys)"
  by (induction ys) auto

lemma sorted_insertBy:
  assumes "consistentComparator c" and "sorted_wrt (\<lambda>a b. c a b \<le> 0) ys"
  shows "sorted_wrt (\<lambda>a b. c a b \<le> 0) (insertBy c x ys)"
  using assms(2)
proof (induction ys)
  case Nil
  show ?case by simp
next
  case (Cons y ys)
  show ?case
  proof (cases "c x y \<le> 0")
    case True
    have "\<forall>z \<in> set ys. c x z \<le> 0"
      using Cons.prems True consistent_trans [OF assms(1), of x y] by auto
    with True Cons.prems show ?thesis by simp
  next
    case False
    then have "c y x \<le> 0" using consistent_flip [OF assms(1)] by simp
    with False Cons show ?thesis by (simp add: set_insertBy)
  qed
qed

lemma filter_insertBy:
  assumes "consistentComparator c"
  shows "filter (\<lambda>y. c k y = 0) (insertBy c x ys) =
           (if c k x = 0 then x # filter (\<lambda>y. c k y = 0) ys else filter (\<lambda>y. c k y = 0) ys)"
proof (induction ys)
  case Nil
  show ?case by simp
next
  case (Cons y ys)
  show ?case
  proof (cases "c x y \<le> 0")
    case True
    then show ?thesis by simp
  next
    case False
    then have "\<not> (c k x = 0 \<and> c k y = 0)"
      using consistent_equal [OF assms] by blast
    with False Cons.IH show ?thesis by auto
  qed
qed

lemma mset_sort_cmp: "mset (sort_cmp c xs) = mset xs"
  by (induction xs) (simp_all add: sort_cmp_def mset_insertBy)

lemma sorted_sort_cmp:
  "consistentComparator c \<Longrightarrow> sorted_wrt (\<lambda>a b. c a b \<le> 0) (sort_cmp c xs)"
proof (induction xs)
  case Nil
  show ?case by (simp add: sort_cmp_def)
next
  case (Cons x xs)
  then have "sorted_wrt (\<lambda>a b. c a b \<le> 0) (insertBy c x (sort_cmp c xs))"
    by (simp add: sorted_insertBy)
  then show ?case by (simp add: sort_cmp_def)
qed

lemma stable_sort_cmp:
  assumes "consistentComparator c"
  shows "filter (\<lambda>y. c k y = 0) (sort_cmp c xs) = filter (\<lambda>y. c k y = 0) xs"
proof (induction xs)
  case Nil
  show ?case by (simp add: sort_cmp_def)
next
  case (Cons x xs)
  have "filter (\<lambda>y. c k y = 0) (sort_cmp c (x # xs))
          = filter (\<lambda>y. c k y = 0) (insertBy c x (sort_cmp c xs))"
    by (simp add: sort_cmp_def)
  also have "\<dots> = (if c k x = 0 then x # filter (\<lambda>y. c k y = 0) (sort_cmp c xs)
                     else filter (\<lambda>y. c k y = 0) (sort_cmp c xs))"
    by (rule filter_insertBy [OF assms])
  also have "\<dots> = filter (\<lambda>y. c k y = 0) (x # xs)"
    by (simp add: Cons.IH)
  finally show ?case .
qed

text \<open>
  A sorted list in which the notes that compare equal stand in a given order is determined
  by these two properties, so any stable sort returns what \<open>sort_cmp\<close> returns.
\<close>

lemma consistent_refl:
  assumes "consistentComparator c" shows "c x x = 0"
proof -
  from assms have "(c x x < 0) = (0 < c x x)"
    unfolding consistentComparator_def by blast
  then show ?thesis by linarith
qed

lemma consistent_both:
  assumes "consistentComparator c" and "c x y \<le> 0" and "c y x \<le> 0"
  shows "c x y = 0"
proof -
  from assms(1) have "(c x y < 0) = (0 < c y x)"
    unfolding consistentComparator_def by blast
  with assms(2,3) show ?thesis by linarith
qed

lemma sorted_stable_unique:
  assumes "consistentComparator c"
    and "sorted_wrt (\<lambda>a b. c a b \<le> 0) ys"
    and "sorted_wrt (\<lambda>a b. c a b \<le> 0) zs"
    and "\<And>k. filter (\<lambda>y. c k y = 0) ys = filter (\<lambda>y. c k y = 0) zs"
  shows "ys = zs"
  using assms(2-4)
proof (induction ys arbitrary: zs)
  case Nil
  show ?case
  proof (cases zs)
    case Nil
    then show ?thesis by simp
  next
    case (Cons z zs')
    with Nil.prems(3) [of z] consistent_refl [OF assms(1), of z] show ?thesis by simp
  qed
next
  case (Cons y ys)
  have yy: "c y y = 0" by (rule consistent_refl [OF assms(1)])
  from Cons.prems(3) [of y] yy have fy: "filter (\<lambda>x. c y x = 0) zs = y # filter (\<lambda>x. c y x = 0) ys"
    by simp
  then obtain z zs' where zs: "zs = z # zs'" by (cases zs) auto
  have zz: "c z z = 0" by (rule consistent_refl [OF assms(1)])
  from fy have "y \<in> set (filter (\<lambda>x. c y x = 0) zs)"
    by (simp only: list.set_intros(1))
  then have yin: "y \<in> set zs"
    by (simp only: set_filter) blast
  have "z \<in> set (filter (\<lambda>x. c z x = 0) zs)"
    by (simp add: zs zz)
  then have "z \<in> set (filter (\<lambda>x. c z x = 0) (y # ys))"
    by (simp only: Cons.prems(3) [of z])
  then have zin: "z \<in> set (y # ys)"
    by (simp only: set_filter) blast
  have zy: "c z y \<le> 0"
    using yin zs Cons.prems(2) zz by auto
  have yz: "c y z \<le> 0"
    using zin Cons.prems(1) yy by auto
  have "c y z = 0" using consistent_both [OF assms(1) yz zy] .
  with fy zs have eq: "z = y" by simp
  have tails: "filter (\<lambda>x. c k x = 0) ys = filter (\<lambda>x. c k x = 0) zs'" for k
    using Cons.prems(3) [of k] zs eq by (cases "c k y = 0") simp_all
  from Cons.prems(1) have s1: "sorted_wrt (\<lambda>a b. c a b \<le> 0) ys" by simp
  from Cons.prems(2) zs have s2: "sorted_wrt (\<lambda>a b. c a b \<le> 0) zs'" by simp
  from Cons.IH [OF s1 s2 tails] zs eq show ?case by simp
qed

lemma sort_cmp_determined:
  assumes "consistentComparator c"
    and "sorted_wrt (\<lambda>a b. c a b \<le> 0) ys"
    and "\<And>k. filter (\<lambda>y. c k y = 0) ys = filter (\<lambda>y. c k y = 0) xs"
  shows "ys = sort_cmp c xs"
proof (rule sorted_stable_unique [OF assms(1,2)])
  show "sorted_wrt (\<lambda>a b. c a b \<le> 0) (sort_cmp c xs)"
    by (rule sorted_sort_cmp [OF assms(1)])
next
  fix k
  show "filter (\<lambda>y. c k y = 0) ys = filter (\<lambda>y. c k y = 0) (sort_cmp c xs)"
    by (simp add: assms(3) stable_sort_cmp [OF assms(1)])
qed

lemma consistent_compareNotes:
  assumes "consistentComparator lc"
  shows "consistentComparator (compareNotes lc sb)"
proof -
  from assms have flip: "\<And>a b. (lc a b < 0) = (0 < lc b a)"
    and trans: "\<And>a b d. lc a b \<le> 0 \<Longrightarrow> lc b d \<le> 0 \<Longrightarrow> lc a d \<le> 0"
    unfolding consistentComparator_def by blast+
  have f: "(compareNotes lc sb a b < 0) = (0 < compareNotes lc sb b a)" for a b
    by (simp add: compareNotes_def flip)
  have t: "compareNotes lc sb a d \<le> 0"
    if "compareNotes lc sb a b \<le> 0" and "compareNotes lc sb b d \<le> 0" for a b d
  proof (cases "sb = ''title''")
    case True
    with that show ?thesis
      using trans [of "title a" "title b" "title d"] by (simp add: compareNotes_def)
  next
    case False
    with that show ?thesis
      by (simp add: compareNotes_def split: if_splits)
  qed
  show ?thesis
    unfolding consistentComparator_def using f t by blast
qed

lemma codeUnitCompare_flip: "(codeUnitCompare a b < 0) = (0 < codeUnitCompare b a)"
proof (induction a b rule: codeUnitCompare.induct)
  case 1
  show ?case by simp
next
  case (2 y ys)
  show ?case by simp
next
  case (3 x xs)
  show ?case by simp
next
  case (4 x xs y ys)
  consider "(of_char x :: nat) < of_char y" | "(of_char y :: nat) < of_char x"
    | "(of_char x :: nat) = of_char y" by linarith
  then show ?case
  proof cases
    case 1 then show ?thesis by simp
  next
    case 2 then show ?thesis by simp
  next
    case 3 with 4 show ?thesis by simp
  qed
qed


lemma codeUnitCompare_trans:
  "codeUnitCompare a b \<le> 0 \<Longrightarrow> codeUnitCompare b d \<le> 0 \<Longrightarrow> codeUnitCompare a d \<le> 0"
proof (induction a b arbitrary: d rule: codeUnitCompare.induct)
  case 1
  then show ?case by simp
next
  case (2 y ys)
  show ?case by (cases d) simp_all
next
  case (3 x xs)
  then show ?case by simp
next
  case (4 x xs y ys)
  show ?case
  proof (cases d)
    case Nil
    with "4.prems"(2) show ?thesis by simp
  next
    case (Cons z zs)
    from "4.prems"(1) have xy: "(of_char x :: nat) \<le> of_char y"
      and xy': "(of_char x :: nat) = of_char y \<Longrightarrow> codeUnitCompare xs ys \<le> 0"
      by (simp_all split: if_splits)
    from "4.prems"(2) Cons have yz: "(of_char y :: nat) \<le> of_char z"
      and yz': "(of_char y :: nat) = of_char z \<Longrightarrow> codeUnitCompare ys zs \<le> 0"
      by (simp_all split: if_splits)
    show ?thesis
    proof (cases "(of_char x :: nat) < of_char z")
      case True
      with Cons show ?thesis by simp
    next
      case False
      with xy yz have e1: "(of_char x :: nat) = of_char y" and e2: "(of_char y :: nat) = of_char z"
        by linarith+
      from e1 have n1: "\<not> (of_char x :: nat) < of_char y" "\<not> (of_char y :: nat) < of_char x"
        by simp_all
      from "4.IH" [OF n1 xy' [OF e1] yz' [OF e2]] have "codeUnitCompare xs zs \<le> 0" .
      with e1 e2 Cons show ?thesis by simp
    qed
  qed
qed

lemma consistent_codeUnitCompare: "consistentComparator codeUnitCompare"
  unfolding consistentComparator_def
  using codeUnitCompare_flip codeUnitCompare_trans by blast

lemma filteredSortedNotes_eq:
  assumes "notesRef < length h"
  shows "filteredSortedNotes lc h notesRef qry sb =
     (if toLowerCase (trim qry) \<noteq> []
      then (h @ [filter (matchesQuery (toLowerCase (trim qry))) (h ! notesRef),
                 sort_cmp (compareNotes lc sb) (filterNotes qry (h ! notesRef))],
            Suc (length h))
      else (h @ [sort_cmp (compareNotes lc sb) (filterNotes qry (h ! notesRef))], length h))"
  using assms
  by (simp add: filteredSortedNotes_def alloc_def Let_def filterNotes_def nth_append)

section \<open>Facts about the tag editor\<close>

lemma foldl_setAdd_distinct: "distinct acc \<Longrightarrow> distinct (foldl setAdd acc xs)"
  by (induction xs arbitrary: acc) (simp_all add: setAdd_def)

lemma foldl_setAdd_set: "set (foldl setAdd acc xs) = set acc \<union> set xs"
  by (induction xs arbitrary: acc) (auto simp add: setAdd_def)

lemma foldl_setAdd_id: "distinct (acc @ xs) \<Longrightarrow> foldl setAdd acc xs = acc @ xs"
  by (induction xs arbitrary: acc) (simp_all add: setAdd_def)

lemma arrayFromSet_distinct: "distinct (arrayFromSet xs)"
  unfolding arrayFromSet_def by (rule foldl_setAdd_distinct) simp

lemma arrayFromSet_set: "set (arrayFromSet xs) = set xs"
  unfolding arrayFromSet_def using foldl_setAdd_set [of "[]" xs] by simp

lemma arrayFromSet_snoc:
  "distinct tagValue \<Longrightarrow>
   arrayFromSet (tagValue @ [t]) = (if t \<in> set tagValue then tagValue else tagValue @ [t])"
  by (simp add: arrayFromSet_def foldl_setAdd_id setAdd_def)

lemma addTag_distinct: "addTag tagValue text = Some nextTags \<Longrightarrow> distinct nextTags"
  by (auto simp add: addTag_def Let_def arrayFromSet_distinct split: if_splits)

lemma tagsDeduplicated_updateNote:
  assumes "tagsDeduplicated s" and "case upd_tags u of None \<Rightarrow> True | Some ts \<Rightarrow> distinct ts"
  shows "tagsDeduplicated (updateNote now i u s)"
  using assms
  by (auto simp add: tagsDeduplicated_def updateNote_def spreadUpdates_def
      split: option.splits)

lemma tagsDeduplicated_editorAddTag:
  "tagsDeduplicated s \<Longrightarrow> tagsDeduplicated (editorAddTag now text s)"
  by (auto simp add: editorAddTag_def onTags_def tagsUpdate_def emptyUpdates_def
      intro!: tagsDeduplicated_updateNote dest: addTag_distinct split: option.splits)

lemma selectedNote_mem: "selectedNote s = Some n \<Longrightarrow> n \<in> set (notes s)"
  by (auto simp add: selectedNote_def find_Some_iff split: option.splits)

lemma tagsDeduplicated_editorRemoveTag:
  assumes "tagsDeduplicated s" shows "tagsDeduplicated (editorRemoveTag now t s)"
proof (cases "selectedNote s")
  case None
  with assms show ?thesis by (simp add: editorRemoveTag_def)
next
  case (Some n)
  then have "n \<in> set (notes s)" by (rule selectedNote_mem)
  with assms have "distinct (removeTag (tags n) t)"
    by (simp add: tagsDeduplicated_def removeTag_def)
  with assms Some show ?thesis
    by (simp add: editorRemoveTag_def onTags_def tagsUpdate_def emptyUpdates_def
        tagsDeduplicated_updateNote)
qed

section \<open>The sample states, evaluated\<close>

lemma noteA_eq:
  "noteA = \<lparr> id_note = ''1000-a1b2c3'', title = ''Alpha'', content = [], tags = [],
             createdAt = 1000, updatedAt = 1000, archived = False \<rparr>"
  by (simp add: noteA_def createNote_def newNote_def envA_def Let_def genId_def showInt_def
      showNat.simps digit_def trim_def isWhiteSpace_def)

lemma storeA_eq:
  "storeA = \<lparr> notes = [noteA], theme = ''light'', query = [], sortBy = ''updatedAt'',
              selectedId = Some ''1000-a1b2c3'' \<rparr>"
  by (simp add: storeA_def noteA_def createNote_def newNote_def envA_def Let_def genId_def
      showInt_def showNat.simps digit_def initStore_def)

lemma noteB_eq:
  "noteB = \<lparr> id_note = ''2001-d4e5f6'', title = ''Beta'', content = ''second note'',
             tags = [''Work'', ''todo''], createdAt = 2000, updatedAt = 2000,
             archived = False \<rparr>"
  by (simp add: noteB_def createNote_def newNote_def envB_def Let_def genId_def showInt_def
      showNat.simps digit_def trim_def isWhiteSpace_def)

lemma storeAB_eq:
  "storeAB = \<lparr> notes = [noteB, noteA], theme = ''light'', query = [],
               sortBy = ''updatedAt'', selectedId = Some ''2001-d4e5f6'' \<rparr>"
  by (simp add: storeAB_def noteB_def createNote_def newNote_def envB_def Let_def genId_def
      showInt_def showNat.simps digit_def storeA_eq)

lemma sample_ids: "id_note noteA = ''1000-a1b2c3''" "id_note noteB = ''2001-d4e5f6''"
  by (simp_all add: noteA_eq noteB_eq)

lemma storeDup_eq:
  "storeDup = \<lparr> notes = [noteB, noteA\<lparr> id_note := ''2001-d4e5f6'', updatedAt := 3000 \<rparr>],
                theme = ''light'', query = [], sortBy = ''updatedAt'',
                selectedId = Some ''2001-d4e5f6'' \<rparr>"
  by (simp add: storeDup_def updateNote_def spreadUpdates_def emptyUpdates_def storeAB_eq
      sample_ids noteA_eq)

section \<open>Clearing the store\<close>

text \<open>
  C5: \<^verbatim>\<open>clearAll\<close> is gated on the confirmation. When the confirmation is rejected the
  whole state is unchanged; when it is accepted the note collection is empty and the
  selected-note reference is none (the theme, the query and the sort key stay).
\<close>

theorem clearAll_gated:
  "clearAll False s = s \<and>
   notes (clearAll True s) = [] \<and>
   selectedId (clearAll True s) = None \<and>
   theme (clearAll True s) = theme s \<and>
   query (clearAll True s) = query s \<and>
   sortBy (clearAll True s) = sortBy s"
  by (simp add: clearAll_def)

section \<open>The setters\<close>

text \<open>
  C9, as the claim states it, fails: \<^verbatim>\<open>setSortBy\<close> stores a string that is none of
  \<^verbatim>\<open>updatedAt\<close>, \<^verbatim>\<open>createdAt\<close>, \<^verbatim>\<open>title\<close>.
\<close>

theorem setSortBy_validates_counterexample:
  "''bogus'' \<notin> {''updatedAt'', ''createdAt'', ''title''} \<and>
   sortBy (setSortBy ''bogus'' (initStore None None)) = ''bogus'' \<and>
   sortBy (setSortBy ''bogus'' (initStore None None)) \<noteq> sortBy (initStore None None)"
  by (simp add: setSortBy_def initStore_def)

text \<open>
  C9, amended: the four setters validate nothing. Each stores its argument in its field,
  whatever the argument is, and leaves every other field as it was.
\<close>

theorem setters_store_argument:
  "setSortBy k s = s\<lparr> sortBy := k \<rparr> \<and>
   setTheme t s = s\<lparr> theme := t \<rparr> \<and>
   setQuery q s = s\<lparr> query := q \<rparr> \<and>
   setSelectedId i s = s\<lparr> selectedId := i \<rparr> \<and>
   sortBy (setSortBy k s) = k \<and>
   theme (setTheme t s) = t \<and>
   query (setQuery q s) = q \<and>
   selectedId (setSelectedId i s) = i"
  by (simp add: setSortBy_def setTheme_def setQuery_def setSelectedId_def)

section \<open>Operations on an id that matches no note\<close>

text \<open>
  C3, as the claim states it, fails for \<^verbatim>\<open>deleteNote\<close>: when the selected-note
  reference holds the id that matches no note, \<^verbatim>\<open>deleteNote\<close> clears it.
\<close>

theorem deleteNote_unknown_id_counterexample:
  "''x'' \<notin> id_note ` set (notes (setSelectedId (Some ''x'') (initStore None None))) \<and>
   deleteNote ''x'' (setSelectedId (Some ''x'') (initStore None None))
     \<noteq> setSelectedId (Some ''x'') (initStore None None) \<and>
   selectedId (setSelectedId (Some ''x'') (initStore None None)) = Some ''x'' \<and>
   selectedId (deleteNote ''x'' (setSelectedId (Some ''x'') (initStore None None))) = None"
proof -
  let ?s = "setSelectedId (Some ''x'') (initStore None None)"
  have sel: "selectedId ?s = Some ''x''"
    by (simp add: setSelectedId_def)
  have del: "selectedId (deleteNote ''x'' ?s) = None"
    by (simp add: deleteNote_def setSelectedId_def)
  have "notes ?s = []"
    by (simp add: setSelectedId_def initStore_def)
  moreover from sel del have "deleteNote ''x'' ?s \<noteq> ?s"
    by (metis option.distinct(1))
  ultimately show ?thesis using sel del by simp
qed

text \<open>
  C3, amended: for an id that matches no note, \<^verbatim>\<open>updateNote\<close> and
  \<^verbatim>\<open>toggleArchive\<close> return the state unchanged; \<^verbatim>\<open>deleteNote\<close> leaves the
  collection, the theme, the query and the sort key unchanged, leaves the selected-note
  reference unchanged when it differs from the id, and clears it when it equals the id.
  All three are total.
\<close>

theorem unknown_id_noop:
  assumes "i \<notin> id_note ` set (notes s)"
  shows "updateNote now i u s = s \<and>
         toggleArchive now i s = s \<and>
         notes (deleteNote i s) = notes s \<and>
         theme (deleteNote i s) = theme s \<and>
         query (deleteNote i s) = query s \<and>
         sortBy (deleteNote i s) = sortBy s \<and>
         (selectedId s \<noteq> Some i \<longrightarrow> deleteNote i s = s) \<and>
         (selectedId s = Some i \<longrightarrow> selectedId (deleteNote i s) = None)"
  using assms
  by (simp add: updateNote_def toggleArchive_def deleteNote_def map_if_unchanged filter_unchanged)

theorem unknown_id_noop_witness:
  "''x'' \<notin> id_note ` set (notes storeAB) \<and>
   updateNote 3000 ''x'' (titleUpdate ''Gamma'') storeAB = storeAB \<and>
   toggleArchive 3000 ''x'' storeAB = storeAB \<and>
   deleteNote ''x'' storeAB = storeAB"
proof -
  have h: "''x'' \<notin> id_note ` set (notes storeAB)"
    by (simp add: storeAB_eq sample_ids)
  have sel: "selectedId storeAB \<noteq> Some ''x''"
    by (simp add: storeAB_eq)
  from sel h unknown_id_noop [OF h, of 3000 "titleUpdate ''Gamma''"] show ?thesis
    by simp
qed

section \<open>Updating a note\<close>

text \<open>
  C2, as the claim states it, fails: the object given to \<^verbatim>\<open>updateNote\<close> is spread
  over the note, so an \<^verbatim>\<open>id\<close> or a \<^verbatim>\<open>createdAt\<close> in it replaces the note's.
\<close>

theorem updateNote_id_counterexample:
  "noteA \<in> set (notes storeA) \<and>
   notes (updateNote 3000 (id_note noteA) (emptyUpdates\<lparr> upd_id := Some ''other'', upd_createdAt := Some 7 \<rparr>) storeA)
     = [noteA\<lparr> id_note := ''other'', createdAt := 7, updatedAt := 3000 \<rparr>] \<and>
   id_note (noteA\<lparr> id_note := ''other'', createdAt := 7, updatedAt := 3000 \<rparr>) \<noteq> id_note noteA \<and>
   createdAt (noteA\<lparr> id_note := ''other'', createdAt := 7, updatedAt := 3000 \<rparr>) \<noteq> createdAt noteA"
  by (simp add: storeA_eq updateNote_def spreadUpdates_def emptyUpdates_def noteA_eq)

text \<open>
  C2, amended: for a note of the collection whose id is the given one, the resulting
  note has every field that the patch carries taken from the patch (\<^verbatim>\<open>id\<close> and
  \<^verbatim>\<open>createdAt\<close> included) and every other field as before, except
  \<^verbatim>\<open>updatedAt\<close>, which is the current time whatever the patch says. So the id and
  \<^verbatim>\<open>createdAt\<close> are as before the call for every patch that carries neither.
\<close>

theorem updateNote_merges:
  assumes "j < length (notes s)" and "id_note (notes s ! j) = i"
  shows "length (notes (updateNote now i u s)) = length (notes s) \<and>
         notes (updateNote now i u s) ! j = spreadUpdates now u (notes s ! j) \<and>
         (upd_id u = None \<longrightarrow> id_note (notes (updateNote now i u s) ! j) = i) \<and>
         (upd_createdAt u = None \<longrightarrow>
            createdAt (notes (updateNote now i u s) ! j) = createdAt (notes s ! j)) \<and>
         id_note (spreadUpdates now u n) = (case upd_id u of None \<Rightarrow> id_note n | Some v \<Rightarrow> v) \<and>
         title (spreadUpdates now u n) = (case upd_title u of None \<Rightarrow> title n | Some v \<Rightarrow> v) \<and>
         content (spreadUpdates now u n) = (case upd_content u of None \<Rightarrow> content n | Some v \<Rightarrow> v) \<and>
         tags (spreadUpdates now u n) = (case upd_tags u of None \<Rightarrow> tags n | Some v \<Rightarrow> v) \<and>
         createdAt (spreadUpdates now u n) = (case upd_createdAt u of None \<Rightarrow> createdAt n | Some v \<Rightarrow> v) \<and>
         archived (spreadUpdates now u n) = (case upd_archived u of None \<Rightarrow> archived n | Some v \<Rightarrow> v) \<and>
         updatedAt (spreadUpdates now u n) = now"
  using assms by (simp add: updateNote_def spreadUpdates_def)

theorem updateNote_merges_witness:
  "(1::nat) < length (notes storeAB) \<and> id_note (notes storeAB ! 1) = ''1000-a1b2c3'' \<and>
   notes (updateNote 3000 ''1000-a1b2c3'' (titleUpdate ''Gamma'') storeAB) ! 1
     = noteA\<lparr> title := ''Gamma'', updatedAt := 3000 \<rparr> \<and>
   id_note (notes (updateNote 3000 ''1000-a1b2c3'' (titleUpdate ''Gamma'') storeAB) ! 1)
     = ''1000-a1b2c3'' \<and>
   createdAt (notes (updateNote 3000 ''1000-a1b2c3'' (titleUpdate ''Gamma'') storeAB) ! 1)
     = 1000"
proof -
  have h1: "(1::nat) < length (notes storeAB)" by (simp add: storeAB_eq)
  have h2: "id_note (notes storeAB ! 1) = ''1000-a1b2c3''"
    by (simp add: storeAB_eq sample_ids)
  have n: "notes storeAB ! 1 = noteA" by (simp add: storeAB_eq)
  have sp: "spreadUpdates 3000 (titleUpdate ''Gamma'') noteA
              = noteA\<lparr> title := ''Gamma'', updatedAt := 3000 \<rparr>"
    by (simp add: spreadUpdates_def titleUpdate_def emptyUpdates_def noteA_eq)
  have u: "upd_id (titleUpdate ''Gamma'') = None" "upd_createdAt (titleUpdate ''Gamma'') = None"
    by (simp_all add: titleUpdate_def emptyUpdates_def)
  from updateNote_merges [OF h1 h2, of 3000 "titleUpdate ''Gamma''" noteA] h1 h2 n sp u
  show ?thesis by (simp add: noteA_eq)
qed

text \<open>
  C10, as the claim states it, fails: in the state where two notes carry the id of note
  B, \<^verbatim>\<open>toggleArchive\<close> and \<^verbatim>\<open>updateNote\<close> on that id change both notes, not one.
\<close>

theorem update_toggle_one_note_counterexample:
  "notes storeDup = [noteB, noteA\<lparr> id_note := ''2001-d4e5f6'', updatedAt := 3000 \<rparr>] \<and>
   noteB \<noteq> noteA\<lparr> id_note := ''2001-d4e5f6'', updatedAt := 3000 \<rparr> \<and>
   ''2001-d4e5f6'' \<in> id_note ` set (notes storeDup) \<and>
   map archived (notes storeDup) = [False, False] \<and>
   map archived (notes (toggleArchive 4000 ''2001-d4e5f6'' storeDup)) = [True, True] \<and>
   map title (notes storeDup) = [''Beta'', ''Alpha''] \<and>
   map title (notes (updateNote 4000 ''2001-d4e5f6'' (titleUpdate ''Gamma'') storeDup))
     = [''Gamma'', ''Gamma'']"
  by (simp add: storeDup_eq toggleArchive_def updateNote_def spreadUpdates_def titleUpdate_def
      emptyUpdates_def sample_ids noteA_eq noteB_eq)

text \<open>
  C10, amended: \<^verbatim>\<open>updateNote\<close> and \<^verbatim>\<open>toggleArchive\<close> change exactly the notes
  whose id is the given one, each at its position; that is one note when the ids of the
  collection are distinct. Every other note stays where it was, as it was, the number of
  notes is unchanged, and the query, the sort key, the selected-note reference and the
  theme are unchanged.
\<close>

theorem update_toggle_frame:
  "length (notes (updateNote now i u s)) = length (notes s) \<and>
   length (notes (toggleArchive now i s)) = length (notes s) \<and>
   (\<forall>j < length (notes s).
      notes (updateNote now i u s) ! j =
        (if id_note (notes s ! j) = i then spreadUpdates now u (notes s ! j) else notes s ! j) \<and>
      notes (toggleArchive now i s) ! j =
        (if id_note (notes s ! j) = i
         then (notes s ! j)\<lparr> archived := \<not> archived (notes s ! j), updatedAt := now \<rparr>
         else notes s ! j)) \<and>
   (distinct (map id_note (notes s)) \<longrightarrow>
      (\<forall>j < length (notes s). id_note (notes s ! j) = i \<longrightarrow>
         notes (updateNote now i u s) = (notes s)[j := spreadUpdates now u (notes s ! j)] \<and>
         notes (toggleArchive now i s) =
           (notes s)[j := (notes s ! j)\<lparr> archived := \<not> archived (notes s ! j),
                                         updatedAt := now \<rparr>])) \<and>
   query (updateNote now i u s) = query s \<and> sortBy (updateNote now i u s) = sortBy s \<and>
   selectedId (updateNote now i u s) = selectedId s \<and> theme (updateNote now i u s) = theme s \<and>
   query (toggleArchive now i s) = query s \<and> sortBy (toggleArchive now i s) = sortBy s \<and>
   selectedId (toggleArchive now i s) = selectedId s \<and> theme (toggleArchive now i s) = theme s"
proof -
  have len: "length (notes (updateNote now i u s)) = length (notes s)"
            "length (notes (toggleArchive now i s)) = length (notes s)"
    by (simp_all add: updateNote_def toggleArchive_def)
  have pos: "\<forall>j < length (notes s).
      notes (updateNote now i u s) ! j =
        (if id_note (notes s ! j) = i then spreadUpdates now u (notes s ! j) else notes s ! j) \<and>
      notes (toggleArchive now i s) ! j =
        (if id_note (notes s ! j) = i
         then (notes s ! j)\<lparr> archived := \<not> archived (notes s ! j), updatedAt := now \<rparr>
         else notes s ! j)"
    by (simp add: updateNote_def toggleArchive_def)
  have one: "distinct (map id_note (notes s)) \<longrightarrow>
      (\<forall>j < length (notes s). id_note (notes s ! j) = i \<longrightarrow>
         notes (updateNote now i u s) = (notes s)[j := spreadUpdates now u (notes s ! j)] \<and>
         notes (toggleArchive now i s) =
           (notes s)[j := (notes s ! j)\<lparr> archived := \<not> archived (notes s ! j),
                                         updatedAt := now \<rparr>])"
    by (simp add: updateNote_def toggleArchive_def map_if_distinct)
  have frame: "query (updateNote now i u s) = query s" "sortBy (updateNote now i u s) = sortBy s"
    "selectedId (updateNote now i u s) = selectedId s" "theme (updateNote now i u s) = theme s"
    "query (toggleArchive now i s) = query s" "sortBy (toggleArchive now i s) = sortBy s"
    "selectedId (toggleArchive now i s) = selectedId s" "theme (toggleArchive now i s) = theme s"
    by (simp_all add: updateNote_def toggleArchive_def)
  from len pos one frame show ?thesis by blast
qed

theorem update_toggle_frame_witness:
  "distinct (map id_note (notes storeAB)) \<and> (1::nat) < length (notes storeAB) \<and>
   id_note (notes storeAB ! 1) = ''1000-a1b2c3'' \<and>
   notes (updateNote 3000 ''1000-a1b2c3'' (titleUpdate ''Gamma'') storeAB)
     = [noteB, noteA\<lparr> title := ''Gamma'', updatedAt := 3000 \<rparr>] \<and>
   notes (toggleArchive 3000 ''1000-a1b2c3'' storeAB)
     = [noteB, noteA\<lparr> archived := True, updatedAt := 3000 \<rparr>]"
proof -
  have d: "distinct (map id_note (notes storeAB))"
    by (simp add: storeAB_eq sample_ids)
  have h1: "(1::nat) < length (notes storeAB)" by (simp add: storeAB_eq)
  have h2: "id_note (notes storeAB ! 1) = ''1000-a1b2c3''"
    by (simp add: storeAB_eq sample_ids)
  have sp: "spreadUpdates 3000 (titleUpdate ''Gamma'') noteA
              = noteA\<lparr> title := ''Gamma'', updatedAt := 3000 \<rparr>"
    by (simp add: spreadUpdates_def titleUpdate_def emptyUpdates_def noteA_eq)
  have ar: "archived noteA = False" by (simp add: noteA_eq)
  from update_toggle_frame [of 3000 "''1000-a1b2c3''" "titleUpdate ''Gamma''" storeAB] d h1 h2
  have "notes (updateNote 3000 ''1000-a1b2c3'' (titleUpdate ''Gamma'') storeAB)
          = (notes storeAB)[1 := spreadUpdates 3000 (titleUpdate ''Gamma'') (notes storeAB ! 1)]"
    and "notes (toggleArchive 3000 ''1000-a1b2c3'' storeAB)
          = (notes storeAB)[1 := (notes storeAB ! 1)\<lparr> archived := \<not> archived (notes storeAB ! 1),
                                         updatedAt := 3000 \<rparr>]"
    by blast+
  with d h1 h2 sp ar show ?thesis by (simp add: storeAB_eq)
qed

section \<open>Deleting a note\<close>

text \<open>
  C4, as the claim states it, fails: in the state where two notes carry the id of note B,
  \<^verbatim>\<open>deleteNote\<close> on that id removes both notes, not one.
\<close>

theorem deleteNote_exactly_one_counterexample:
  "notes storeDup = [noteB, noteA\<lparr> id_note := ''2001-d4e5f6'', updatedAt := 3000 \<rparr>] \<and>
   noteB \<noteq> noteA\<lparr> id_note := ''2001-d4e5f6'', updatedAt := 3000 \<rparr> \<and>
   ''2001-d4e5f6'' \<in> id_note ` set (notes storeDup) \<and>
   notes (deleteNote ''2001-d4e5f6'' storeDup) = [] \<and>
   length (notes storeDup) - length (notes (deleteNote ''2001-d4e5f6'' storeDup)) = 2"
  by (simp add: storeDup_eq deleteNote_def sample_ids noteA_eq noteB_eq)

text \<open>
  C4, amended: for an id that matches a note, \<^verbatim>\<open>deleteNote\<close> removes every note
  with that id and no other note, keeping the order of the rest; that is the one matching
  note when the ids of the collection are distinct. The selected-note reference is cleared
  when it equals the id and is unchanged otherwise.
\<close>

theorem deleteNote_removes:
  assumes "i \<in> id_note ` set (notes s)"
  shows "notes (deleteNote i s) = filter (\<lambda>n. id_note n \<noteq> i) (notes s) \<and>
         i \<notin> id_note ` set (notes (deleteNote i s)) \<and>
         (\<forall>n \<in> set (notes s). id_note n \<noteq> i \<longrightarrow> n \<in> set (notes (deleteNote i s))) \<and>
         (distinct (map id_note (notes s)) \<longrightarrow>
            (\<exists>pre n post. notes s = pre @ n # post \<and> id_note n = i \<and>
                            notes (deleteNote i s) = pre @ post)) \<and>
         (selectedId s = Some i \<longrightarrow> selectedId (deleteNote i s) = None) \<and>
         (selectedId s \<noteq> Some i \<longrightarrow> selectedId (deleteNote i s) = selectedId s) \<and>
         theme (deleteNote i s) = theme s \<and> query (deleteNote i s) = query s \<and>
         sortBy (deleteNote i s) = sortBy s"
proof -
  have split: "distinct (map id_note (notes s)) \<longrightarrow>
            (\<exists>pre n post. notes s = pre @ n # post \<and> id_note n = i \<and>
                            notes (deleteNote i s) = pre @ post)"
    using filter_distinct_split [of id_note "notes s" i] assms
    by (simp add: deleteNote_def)
  have rest: "notes (deleteNote i s) = filter (\<lambda>n. id_note n \<noteq> i) (notes s)"
    "i \<notin> id_note ` set (notes (deleteNote i s))"
    "\<forall>n \<in> set (notes s). id_note n \<noteq> i \<longrightarrow> n \<in> set (notes (deleteNote i s))"
    "selectedId s = Some i \<longrightarrow> selectedId (deleteNote i s) = None"
    "selectedId s \<noteq> Some i \<longrightarrow> selectedId (deleteNote i s) = selectedId s"
    "theme (deleteNote i s) = theme s" "query (deleteNote i s) = query s"
    "sortBy (deleteNote i s) = sortBy s"
    by (auto simp add: deleteNote_def)
  from split rest show ?thesis by blast
qed

theorem deleteNote_removes_witness:
  "''2001-d4e5f6'' \<in> id_note ` set (notes storeAB) \<and>
   selectedId storeAB = Some ''2001-d4e5f6'' \<and>
   distinct (map id_note (notes storeAB)) \<and>
   notes (deleteNote ''2001-d4e5f6'' storeAB) = [noteA] \<and>
   (\<exists>pre n post. notes storeAB = pre @ n # post \<and> id_note n = ''2001-d4e5f6'' \<and>
                   notes (deleteNote ''2001-d4e5f6'' storeAB) = pre @ post) \<and>
   selectedId (deleteNote ''2001-d4e5f6'' storeAB) = None \<and>
   ''1000-a1b2c3'' \<in> id_note ` set (notes storeAB) \<and>
   notes (deleteNote ''1000-a1b2c3'' storeAB) = [noteB] \<and>
   selectedId (deleteNote ''1000-a1b2c3'' storeAB) = Some ''2001-d4e5f6''"
proof -
  have hB: "''2001-d4e5f6'' \<in> id_note ` set (notes storeAB)"
    by (simp add: storeAB_eq sample_ids)
  have hA: "''1000-a1b2c3'' \<in> id_note ` set (notes storeAB)"
    by (simp add: storeAB_eq sample_ids)
  have sel: "selectedId storeAB = Some ''2001-d4e5f6''" by (simp add: storeAB_eq)
  have d: "distinct (map id_note (notes storeAB))"
    by (simp add: storeAB_eq sample_ids)
  from deleteNote_removes [OF hB] d
  have ex: "\<exists>pre n post. notes storeAB = pre @ n # post \<and> id_note n = ''2001-d4e5f6'' \<and>
                   notes (deleteNote ''2001-d4e5f6'' storeAB) = pre @ post"
    by blast
  from deleteNote_removes [OF hB] deleteNote_removes [OF hA] hA hB sel
  have "notes (deleteNote ''2001-d4e5f6'' storeAB) = [noteA] \<and>
        selectedId (deleteNote ''2001-d4e5f6'' storeAB) = None \<and>
        notes (deleteNote ''1000-a1b2c3'' storeAB) = [noteB] \<and>
        selectedId (deleteNote ''1000-a1b2c3'' storeAB) = Some ''2001-d4e5f6''"
    by (simp add: storeAB_eq sample_ids)
  with hA hB sel d ex show ?thesis by blast
qed

section \<open>Creating a note\<close>

text \<open>
  C1, as the claim states it, fails: \<^verbatim>\<open>genId\<close> builds the id from the clock and the
  random string and never looks at the collection. With the clock reading and the random
  string of the call that created note A, a second call produces the id of note A.
\<close>

theorem createNote_id_counterexample:
  "id_note (fst (createNote envA
      \<lparr> data_title = Some ''Gamma'', data_content = None, data_tags = None \<rparr> storeA))
     \<in> id_note ` set (notes storeA)"
  by (simp add: storeA_eq createNote_def newNote_def envA_def Let_def genId_def showInt_def
      showNat.simps digit_def sample_ids)

text \<open>
  C1, amended: \<^verbatim>\<open>createNote\<close> gives the note the id \<^verbatim>\<open>genId()\<close>, the clock
  reading and the random string joined by a hyphen, which differs from the id of every
  existing note whose id was generated from another clock reading or another random
  string. It fills the defaults: the title is Untitled when none is given or when the given
  one is white space only, and the trimmed title otherwise; the content is empty and the
  tags are empty when not given; archived is false; createdAt and updatedAt are the
  current time. It prepends the note to the collection, selects it and returns it, for
  every state and every input.
\<close>

theorem createNote_fills_defaults:
  "id_note (fst (createNote env data s)) = genId (env_idNow env) (env_random env) \<and>
   (\<forall>m \<in> set (notes s). \<forall>t r. id_note m = genId t r \<longrightarrow>
        (t \<noteq> env_idNow env \<or> r \<noteq> env_random env) \<longrightarrow>
        id_note m \<noteq> id_note (fst (createNote env data s))) \<and>
   (data_title data = None \<longrightarrow> title (fst (createNote env data s)) = ''Untitled'') \<and>
   (\<forall>t. data_title data = Some t \<longrightarrow>
        title (fst (createNote env data s)) =
          (if \<forall>c \<in> set t. isWhiteSpace c then ''Untitled'' else trim t)) \<and>
   content (fst (createNote env data s)) =
     (case data_content data of None \<Rightarrow> [] | Some c \<Rightarrow> c) \<and>
   tags (fst (createNote env data s)) =
     (case data_tags data of None \<Rightarrow> [] | Some ts \<Rightarrow> ts) \<and>
   archived (fst (createNote env data s)) = False \<and>
   createdAt (fst (createNote env data s)) = env_now env \<and>
   updatedAt (fst (createNote env data s)) = env_now env \<and>
   notes (snd (createNote env data s)) = fst (createNote env data s) # notes s \<and>
   selectedId (snd (createNote env data s)) = Some (id_note (fst (createNote env data s))) \<and>
   theme (snd (createNote env data s)) = theme s \<and>
   query (snd (createNote env data s)) = query s \<and>
   sortBy (snd (createNote env data s)) = sortBy s"
proof -
  let ?n = "fst (createNote env data s)"
  have n: "?n = newNote env data"
    by (simp add: createNote_def Let_def)
  have idn: "id_note ?n = genId (env_idNow env) (env_random env)"
    by (simp add: n newNote_def)
  have fresh: "\<forall>m \<in> set (notes s). \<forall>t r. id_note m = genId t r \<longrightarrow>
        (t \<noteq> env_idNow env \<or> r \<noteq> env_random env) \<longrightarrow> id_note m \<noteq> id_note ?n"
    using genId_inj by (fastforce simp add: idn)
  have t1: "data_title data = None \<longrightarrow> title ?n = ''Untitled''"
    by (simp add: n newNote_def)
  have t2: "\<forall>t. data_title data = Some t \<longrightarrow>
        title ?n = (if \<forall>c \<in> set t. isWhiteSpace c then ''Untitled'' else trim t)"
    by (simp add: n newNote_def trim_empty_iff)
  have c: "content ?n = (case data_content data of None \<Rightarrow> [] | Some c \<Rightarrow> c)"
    by (simp add: n newNote_def split: option.splits)
  have rest: "tags ?n = (case data_tags data of None \<Rightarrow> [] | Some ts \<Rightarrow> ts)"
    "archived ?n = False" "createdAt ?n = env_now env" "updatedAt ?n = env_now env"
    by (simp_all add: n newNote_def)
  have st: "notes (snd (createNote env data s)) = ?n # notes s"
    "selectedId (snd (createNote env data s)) = Some (id_note ?n)"
    "theme (snd (createNote env data s)) = theme s"
    "query (snd (createNote env data s)) = query s"
    "sortBy (snd (createNote env data s)) = sortBy s"
    by (simp_all add: createNote_def Let_def)
  from idn fresh t1 t2 c rest st show ?thesis by blast
qed

theorem createNote_fills_defaults_witness:
  "noteA \<in> set (notes storeA) \<and> id_note noteA = genId 1000 ''a1b2c3'' \<and>
   id_note noteA \<noteq> id_note noteB \<and>
   data_title \<lparr> data_title = Some ''  Beta '', data_content = Some ''second note'',
       data_tags = Some [''Work'', ''todo''] \<rparr> = Some ''  Beta '' \<and>
   title noteB = ''Beta'' \<and>
   notes storeAB = [noteB, noteA] \<and>
   selectedId storeAB = Some (id_note noteB)"
proof -
  let ?d = "\<lparr> data_title = Some ''  Beta '', data_content = Some ''second note'',
       data_tags = Some [''Work'', ''todo''] \<rparr>"
  have m: "noteA \<in> set (notes storeA)" by (simp add: storeA_eq)
  have g: "id_note noteA = genId 1000 ''a1b2c3''"
    by (simp add: noteA_eq genId_def showInt_def showNat.simps digit_def)
  have e: "1000 \<noteq> env_idNow envB \<or> ''a1b2c3'' \<noteq> env_random envB"
    by (simp add: envB_def)
  have dt: "data_title ?d = Some ''  Beta ''" by simp
  have ws: "\<not> (\<forall>c \<in> set ''  Beta ''. isWhiteSpace c)"
    by (simp add: isWhiteSpace_def)
  have tr: "trim ''  Beta '' = ''Beta''"
    by (simp add: trim_def isWhiteSpace_def)
  from createNote_fills_defaults [of envB ?d storeA]
  have fr: "\<forall>m \<in> set (notes storeA). \<forall>t r. id_note m = genId t r \<longrightarrow>
        (t \<noteq> env_idNow envB \<or> r \<noteq> env_random envB) \<longrightarrow> id_note m \<noteq> id_note noteB"
    and ti: "\<forall>t. data_title ?d = Some t \<longrightarrow>
        title noteB = (if \<forall>c \<in> set t. isWhiteSpace c then ''Untitled'' else trim t)"
    and ns: "notes storeAB = noteB # notes storeA"
    and sel: "selectedId storeAB = Some (id_note noteB)"
    unfolding noteB_def storeAB_def by blast+
  from fr m g e have "id_note noteA \<noteq> id_note noteB" by blast
  moreover from ti dt ws tr have "title noteB = ''Beta''" by metis
  moreover from ns have "notes storeAB = [noteB, noteA]" by (simp add: storeA_eq)
  ultimately show ?thesis using m g dt sel by blast
qed

section \<open>Tags\<close>

text \<open>
  C8, as the claim states it, fails: \<^verbatim>\<open>createNote\<close> stores the tags array it is
  given and \<^verbatim>\<open>updateNote\<close> stores the tags of the patch, duplicates included.
\<close>

theorem tags_duplicates_counterexample:
  "tags (fst (createNote envA
      \<lparr> data_title = None, data_content = None, data_tags = Some [''a'', ''a''] \<rparr>
      (initStore None None))) = [''a'', ''a''] \<and>
   \<not> distinct [''a'', ''a''] \<and>
   map tags (notes (updateNote 3000 ''1000-a1b2c3'' (tagsUpdate [''a'', ''a'']) storeA))
     = [[''a'', ''a'']]"
  by (simp add: createNote_def newNote_def Let_def storeA_eq updateNote_def sample_ids
      spreadUpdates_def tagsUpdate_def emptyUpdates_def)

text \<open>
  C8, amended: the tags are de-duplicated by the tag editor, not by the store.
  \<^verbatim>\<open>addTag\<close> hands over a list without duplicates that holds the old tags and the
  trimmed new one, in insertion order, the new tag last when it was not there.
  \<^verbatim>\<open>createNote\<close> and \<^verbatim>\<open>updateNote\<close> store the tags they are given. So from a
  state where no note has a tag twice, the tag editor's add and remove, the archive toggle,
  deletion, clearing and the setters lead to such a state, and so do \<^verbatim>\<open>createNote\<close>
  and \<^verbatim>\<open>updateNote\<close> when the tags given to them hold no string twice.
\<close>

theorem tags_deduplicated_preserved:
  assumes "tagsDeduplicated s"
  shows "tagsDeduplicated (editorAddTag now text s) \<and>
         tagsDeduplicated (editorRemoveTag now t s) \<and>
         tagsDeduplicated (toggleArchive now i s) \<and>
         tagsDeduplicated (deleteNote i s) \<and>
         tagsDeduplicated (clearAll confirmed s) \<and>
         tagsDeduplicated (setQuery q s) \<and>
         tagsDeduplicated (setSortBy k s) \<and>
         tagsDeduplicated (setSelectedId sel s) \<and>
         tagsDeduplicated (setTheme th s) \<and>
         tags (fst (createNote env data s)) =
           (case data_tags data of None \<Rightarrow> [] | Some ts \<Rightarrow> ts) \<and>
         (distinct (case data_tags data of None \<Rightarrow> [] | Some ts \<Rightarrow> ts) \<longrightarrow>
            tagsDeduplicated (snd (createNote env data s))) \<and>
         ((case upd_tags u of None \<Rightarrow> True | Some ts \<Rightarrow> distinct ts) \<longrightarrow>
            tagsDeduplicated (updateNote now i u s)) \<and>
         (\<forall>tagValue nextTags. addTag tagValue text = Some nextTags \<longrightarrow>
            distinct nextTags \<and> set nextTags = set tagValue \<union> {trim text} \<and>
            (distinct tagValue \<longrightarrow>
               nextTags = (if trim text \<in> set tagValue then tagValue else tagValue @ [trim text])))"
proof -
  have a: "tagsDeduplicated (editorAddTag now text s)"
    using assms by (rule tagsDeduplicated_editorAddTag)
  have b: "tagsDeduplicated (editorRemoveTag now t s)"
    using assms by (rule tagsDeduplicated_editorRemoveTag)
  have c: "tagsDeduplicated (toggleArchive now i s)"
    using assms by (auto simp add: tagsDeduplicated_def toggleArchive_def)
  have d: "tagsDeduplicated (deleteNote i s)"
    using assms by (simp add: tagsDeduplicated_def deleteNote_def)
  have e: "tagsDeduplicated (clearAll confirmed s)"
    using assms by (simp add: tagsDeduplicated_def clearAll_def)
  have f: "tagsDeduplicated (setQuery q s)" "tagsDeduplicated (setSortBy k s)"
    "tagsDeduplicated (setSelectedId sel s)" "tagsDeduplicated (setTheme th s)"
    using assms
    by (simp_all add: tagsDeduplicated_def setQuery_def setSortBy_def setSelectedId_def
        setTheme_def)
  have g: "tags (fst (createNote env data s)) =
           (case data_tags data of None \<Rightarrow> [] | Some ts \<Rightarrow> ts)"
    by (simp add: createNote_def newNote_def Let_def)
  have h: "distinct (case data_tags data of None \<Rightarrow> [] | Some ts \<Rightarrow> ts) \<longrightarrow>
            tagsDeduplicated (snd (createNote env data s))"
    using assms by (simp add: tagsDeduplicated_def createNote_def newNote_def Let_def)
  have k: "(case upd_tags u of None \<Rightarrow> True | Some ts \<Rightarrow> distinct ts) \<longrightarrow>
            tagsDeduplicated (updateNote now i u s)"
    using assms tagsDeduplicated_updateNote by blast
  have l: "\<forall>tagValue nextTags. addTag tagValue text = Some nextTags \<longrightarrow>
            distinct nextTags \<and> set nextTags = set tagValue \<union> {trim text} \<and>
            (distinct tagValue \<longrightarrow>
               nextTags = (if trim text \<in> set tagValue then tagValue else tagValue @ [trim text]))"
  proof (intro allI impI)
    fix tagValue nextTags
    assume ad: "addTag tagValue text = Some nextTags"
    then have nx: "nextTags = arrayFromSet (tagValue @ [trim text])"
      by (auto simp add: addTag_def Let_def split: if_splits)
    have "set nextTags = set tagValue \<union> {trim text}"
      by (simp add: nx arrayFromSet_set)
    moreover have "distinct tagValue \<longrightarrow>
               nextTags = (if trim text \<in> set tagValue then tagValue else tagValue @ [trim text])"
      using arrayFromSet_snoc nx by blast
    ultimately show "distinct nextTags \<and> set nextTags = set tagValue \<union> {trim text} \<and>
            (distinct tagValue \<longrightarrow>
               nextTags = (if trim text \<in> set tagValue then tagValue else tagValue @ [trim text]))"
      using addTag_distinct [OF ad] by blast
  qed
  from a b c d e f g h k l show ?thesis by blast
qed

theorem tags_deduplicated_preserved_witness:
  "tagsDeduplicated storeAB \<and>
   tagsDeduplicated (editorAddTag 3000 '' urgent '' storeAB) \<and>
   map tags (notes (editorAddTag 3000 '' urgent '' storeAB)) = [[''Work'', ''todo'', ''urgent''], []] \<and>
   addTag [''Work'', ''todo''] ''Work'' = Some [''Work'', ''todo''] \<and>
   distinct [''Work'', ''todo'']"
proof -
  have h: "tagsDeduplicated storeAB"
    by (simp add: tagsDeduplicated_def storeAB_eq noteA_eq noteB_eq)
  have sel: "selectedNote storeAB = Some noteB"
    by (simp add: selectedNote_def storeAB_eq sample_ids)
  have tr: "trim '' urgent '' = ''urgent''" "trim ''Work'' = ''Work''"
    by (simp_all add: trim_def isWhiteSpace_def)
  have ad: "addTag (tags noteB) '' urgent '' = Some [''Work'', ''todo'', ''urgent'']"
    by (simp add: addTag_def tr arrayFromSet_def setAdd_def noteB_eq)
  have ev: "map tags (notes (editorAddTag 3000 '' urgent '' storeAB))
              = [[''Work'', ''todo'', ''urgent''], []]"
  proof -
    have "editorAddTag 3000 '' urgent '' storeAB
            = updateNote 3000 ''2001-d4e5f6'' (tagsUpdate [''Work'', ''todo'', ''urgent'']) storeAB"
      by (simp add: editorAddTag_def sel ad onTags_def sample_ids)
    then show ?thesis
      by (simp add: updateNote_def spreadUpdates_def tagsUpdate_def emptyUpdates_def
          storeAB_eq sample_ids noteA_eq)
  qed
  have ad2: "addTag [''Work'', ''todo''] ''Work'' = Some [''Work'', ''todo'']"
    by (simp add: addTag_def tr arrayFromSet_def setAdd_def)
  from tags_deduplicated_preserved [OF h, of 3000 "'' urgent ''"] h ev ad2
  show ?thesis by simp
qed

section \<open>The derived view: filtering\<close>

text \<open>
  C6: the filtering step keeps exactly the notes whose lower-cased title, lower-cased
  content or some lower-cased tag contains the trimmed, lower-cased query as a substring,
  in their order; when the query is empty after trimming, all notes are kept.
\<close>

theorem filterNotes_keeps:
  "filterNotes qry ns =
     filter (\<lambda>n. (\<exists>a b. toLowerCase (title n) = a @ toLowerCase (trim qry) @ b) \<or>
                  (\<exists>a b. toLowerCase (content n) = a @ toLowerCase (trim qry) @ b) \<or>
                  (\<exists>t \<in> set (tags n). \<exists>a b. toLowerCase t = a @ toLowerCase (trim qry) @ b)) ns \<and>
   (trim qry = [] \<longrightarrow> filterNotes qry ns = ns)"
proof (cases "toLowerCase (trim qry) = []")
  case True
  then have "filterNotes qry ns = ns" by (simp add: filterNotes_def)
  moreover have "\<exists>a b. s = a @ b" for s :: string
    by (metis append_Nil)
  ultimately show ?thesis using True by (simp add: filter_id_conv)
next
  case False
  then have "trim qry \<noteq> []" by (auto simp add: toLowerCase_def)
  moreover from False have "filterNotes qry ns = filter (matchesQuery (toLowerCase (trim qry))) ns"
    by (simp add: filterNotes_def)
  ultimately show ?thesis
    using matchesQuery_iff [of "toLowerCase (trim qry)"] by (simp cong: filter_cong)
qed

theorem filterNotes_keeps_witness:
  "filterNotes ''  ALPHA '' (notes storeAB) = [noteA] \<and>
   filterNotes ''wOrK'' (notes storeAB) = [noteB] \<and>
   filterNotes ''   '' (notes storeAB) = [noteB, noteA] \<and>
   (\<exists>t \<in> set (tags noteB). \<exists>a b. toLowerCase t = a @ toLowerCase (trim ''wOrK'') @ b)"
proof -
  have tr: "toLowerCase (trim ''  ALPHA '') = ''alpha''" "toLowerCase (trim ''wOrK'') = ''work''"
    "trim ''   '' = []"
    by (simp_all add: trim_def isWhiteSpace_def toLowerCase_def lowerChar_def char_of_eq_iff)
  have lw: "toLowerCase ''Alpha'' = ''alpha''" "toLowerCase ''Beta'' = ''beta''"
    "toLowerCase ''second note'' = ''second note''" "toLowerCase ''Work'' = ''work''"
    "toLowerCase ''todo'' = ''todo''" "toLowerCase [] = []"
    by (simp_all add: toLowerCase_def lowerChar_def char_of_eq_iff)
  have a: "matchesQuery ''alpha'' noteA" "\<not> matchesQuery ''alpha'' noteB"
    "\<not> matchesQuery ''work'' noteA" "matchesQuery ''work'' noteB"
    by (simp_all add: matchesQuery_def noteA_eq noteB_eq lw)
  from filterNotes_keeps [of "''  ALPHA ''" "notes storeAB"]
       filterNotes_keeps [of "''wOrK''" "notes storeAB"]
       filterNotes_keeps [of "''   ''" "notes storeAB"]
  have "filterNotes ''  ALPHA '' (notes storeAB) = filter (matchesQuery ''alpha'') (notes storeAB)"
    and "filterNotes ''wOrK'' (notes storeAB) = filter (matchesQuery ''work'') (notes storeAB)"
    and "filterNotes ''   '' (notes storeAB) = notes storeAB"
    unfolding matchesQuery_iff [symmetric] tr by blast+
  moreover have "\<exists>t \<in> set (tags noteB). \<exists>a b. toLowerCase t = a @ toLowerCase (trim ''wOrK'') @ b"
  proof -
    have "toLowerCase ''Work'' = [] @ toLowerCase (trim ''wOrK'') @ []"
      by (simp add: tr lw)
    moreover have "''Work'' \<in> set (tags noteB)" by (simp add: noteB_eq)
    ultimately show ?thesis by blast
  qed
  ultimately show ?thesis using a by (simp add: storeAB_eq)
qed

section \<open>The derived view: sorting\<close>

text \<open>
  C7: the array that \<^verbatim>\<open>filteredSortedNotes\<close> returns holds the filtered notes, each as
  often as the filter kept it, sorted by the current sort key: ascending in the order of
  \<^verbatim>\<open>localeCompare\<close> on the titles when the key is \<^verbatim>\<open>title\<close>, descending by
  \<^verbatim>\<open>createdAt\<close> when it is \<^verbatim>\<open>createdAt\<close>, descending by \<^verbatim>\<open>updatedAt\<close> otherwise.
  Notes with equal keys keep the order they had after filtering. The array is a new one:
  its address was not allocated before, and every array of the heap before the call, the
  notes array among them, is unchanged.
\<close>

theorem filteredSortedNotes_sorted_stable:
  assumes "consistentComparator localeCompare"
    and "notesRef < length h"
    and "h ! notesRef = notes s"
    and "filteredSortedNotes localeCompare h notesRef (query s) (sortBy s) = (h', r)"
  shows "h' ! r = visibleNotes localeCompare s \<and>
         mset (h' ! r) = mset (filterNotes (query s) (notes s)) \<and>
         (sortBy s = ''title'' \<longrightarrow>
            sorted_wrt (\<lambda>a b. localeCompare (title a) (title b) \<le> 0) (h' ! r) \<and>
            (\<forall>t. filter (\<lambda>n. localeCompare t (title n) = 0) (h' ! r) =
                 filter (\<lambda>n. localeCompare t (title n) = 0) (filterNotes (query s) (notes s)))) \<and>
         (sortBy s = ''createdAt'' \<longrightarrow>
            sorted_wrt (\<lambda>a b. createdAt b \<le> createdAt a) (h' ! r) \<and>
            (\<forall>t. filter (\<lambda>n. createdAt n = t) (h' ! r) =
                 filter (\<lambda>n. createdAt n = t) (filterNotes (query s) (notes s)))) \<and>
         (sortBy s \<noteq> ''title'' \<and> sortBy s \<noteq> ''createdAt'' \<longrightarrow>
            sorted_wrt (\<lambda>a b. updatedAt b \<le> updatedAt a) (h' ! r) \<and>
            (\<forall>t. filter (\<lambda>n. updatedAt n = t) (h' ! r) =
                 filter (\<lambda>n. updatedAt n = t) (filterNotes (query s) (notes s)))) \<and>
         length h \<le> r \<and> r < length h' \<and>
         (\<forall>a < length h. h' ! a = h ! a) \<and>
         h' ! notesRef = notes s"
proof -
  let ?c = "compareNotes localeCompare (sortBy s)"
  let ?f = "filterNotes (query s) (notes s)"
  have cc: "consistentComparator ?c"
    using assms(1) by (rule consistent_compareNotes)
  have res: "h' ! r = sort_cmp ?c ?f"
    using assms(4) filteredSortedNotes_eq [OF assms(2), of localeCompare "query s" "sortBy s"]
    by (auto simp add: assms(3) nth_append split: if_splits)
  have frame: "length h \<le> r \<and> r < length h' \<and> (\<forall>a < length h. h' ! a = h ! a)"
    using assms(4) filteredSortedNotes_eq [OF assms(2), of localeCompare "query s" "sortBy s"]
    by (auto simp add: nth_append split: if_splits)
  have vis: "h' ! r = visibleNotes localeCompare s"
    by (simp add: res visibleNotes_def)
  have perm: "mset (h' ! r) = mset ?f"
    by (simp add: res mset_sort_cmp)
  have srt: "sorted_wrt (\<lambda>a b. ?c a b \<le> 0) (h' ! r)"
    unfolding res using cc by (rule sorted_sort_cmp)
  have ti: "sortBy s = ''title'' \<longrightarrow>
            sorted_wrt (\<lambda>a b. localeCompare (title a) (title b) \<le> 0) (h' ! r) \<and>
            (\<forall>t. filter (\<lambda>n. localeCompare t (title n) = 0) (h' ! r) =
                 filter (\<lambda>n. localeCompare t (title n) = 0) ?f)"
  proof
    assume sb: "sortBy s = ''title''"
    then have c: "?c = (\<lambda>a b. localeCompare (title a) (title b))"
      by (simp add: compareNotes_def fun_eq_iff)
    have "filter (\<lambda>n. localeCompare t (title n) = 0) (h' ! r) =
          filter (\<lambda>n. localeCompare t (title n) = 0) ?f" for t
      using stable_sort_cmp [OF cc, of "\<lparr> id_note = [], title = t, content = [], tags = [],
          createdAt = 0, updatedAt = 0, archived = False \<rparr>" ?f]
      by (simp add: res c)
    with srt c show "sorted_wrt (\<lambda>a b. localeCompare (title a) (title b) \<le> 0) (h' ! r) \<and>
            (\<forall>t. filter (\<lambda>n. localeCompare t (title n) = 0) (h' ! r) =
                 filter (\<lambda>n. localeCompare t (title n) = 0) ?f)"
      by simp
  qed
  have cr: "sortBy s = ''createdAt'' \<longrightarrow>
            sorted_wrt (\<lambda>a b. createdAt b \<le> createdAt a) (h' ! r) \<and>
            (\<forall>t. filter (\<lambda>n. createdAt n = t) (h' ! r) = filter (\<lambda>n. createdAt n = t) ?f)"
  proof
    assume sb: "sortBy s = ''createdAt''"
    then have c: "?c = (\<lambda>a b. createdAt b - createdAt a)"
      by (simp add: compareNotes_def fun_eq_iff)
    have "filter (\<lambda>n. createdAt n = t) (h' ! r) = filter (\<lambda>n. createdAt n = t) ?f" for t
      using stable_sort_cmp [OF cc, of "\<lparr> id_note = [], title = [], content = [], tags = [],
          createdAt = t, updatedAt = 0, archived = False \<rparr>" ?f]
      by (simp add: res c)
    with srt c show "sorted_wrt (\<lambda>a b. createdAt b \<le> createdAt a) (h' ! r) \<and>
            (\<forall>t. filter (\<lambda>n. createdAt n = t) (h' ! r) = filter (\<lambda>n. createdAt n = t) ?f)"
      by simp
  qed
  have up: "sortBy s \<noteq> ''title'' \<and> sortBy s \<noteq> ''createdAt'' \<longrightarrow>
            sorted_wrt (\<lambda>a b. updatedAt b \<le> updatedAt a) (h' ! r) \<and>
            (\<forall>t. filter (\<lambda>n. updatedAt n = t) (h' ! r) = filter (\<lambda>n. updatedAt n = t) ?f)"
  proof
    assume sb: "sortBy s \<noteq> ''title'' \<and> sortBy s \<noteq> ''createdAt''"
    then have c: "?c = (\<lambda>a b. updatedAt b - updatedAt a)"
      by (simp add: compareNotes_def fun_eq_iff)
    have "filter (\<lambda>n. updatedAt n = t) (h' ! r) = filter (\<lambda>n. updatedAt n = t) ?f" for t
      using stable_sort_cmp [OF cc, of "\<lparr> id_note = [], title = [], content = [], tags = [],
          createdAt = 0, updatedAt = t, archived = False \<rparr>" ?f]
      by (simp add: res c)
    with srt c show "sorted_wrt (\<lambda>a b. updatedAt b \<le> updatedAt a) (h' ! r) \<and>
            (\<forall>t. filter (\<lambda>n. updatedAt n = t) (h' ! r) = filter (\<lambda>n. updatedAt n = t) ?f)"
      by simp
  qed
  from frame assms(2,3) have same: "h' ! notesRef = notes s" by simp
  from vis perm ti cr up frame same show ?thesis by blast
qed

theorem filteredSortedNotes_sorted_stable_witness:
  "consistentComparator codeUnitCompare \<and>
   (0::nat) < length [notes storeAB] \<and>
   filteredSortedNotes codeUnitCompare [notes storeAB] 0
       (query (setSortBy ''title'' storeAB)) (sortBy (setSortBy ''title'' storeAB))
     = ([[noteB, noteA], [noteA, noteB]], 1) \<and>
   visibleNotes codeUnitCompare (setSortBy ''title'' storeAB) = [noteA, noteB] \<and>
   sorted_wrt (\<lambda>a b. codeUnitCompare (title a) (title b) \<le> 0) [noteA, noteB] \<and>
   [[noteB, noteA], [noteA, noteB]] ! 0 = notes storeAB"
proof -
  let ?s = "setSortBy ''title'' storeAB"
  have q: "query ?s = []" and sb: "sortBy ?s = ''title''" and ns: "notes ?s = [noteB, noteA]"
    by (simp_all add: setSortBy_def storeAB_eq)
  have h1: "(0::nat) < length [notes storeAB]" by simp
  have h2: "[notes storeAB] ! 0 = notes ?s" by (simp add: setSortBy_def)
  have tr: "toLowerCase (trim []) = []" by (simp add: trim_def toLowerCase_def)
  have cmp: "\<not> compareNotes codeUnitCompare ''title'' noteB noteA \<le> 0"
    by (simp add: compareNotes_def noteA_eq noteB_eq)
  have "filteredSortedNotes codeUnitCompare [notes storeAB] 0 [] ''title''
              = ([[noteB, noteA], [noteA, noteB]], 1)"
    using cmp
    by (simp add: filteredSortedNotes_eq tr filterNotes_def sort_cmp_def storeAB_eq)
  then have ev: "filteredSortedNotes codeUnitCompare [notes storeAB] 0 (query ?s) (sortBy ?s)
              = ([[noteB, noteA], [noteA, noteB]], 1)"
    unfolding q sb .
  from filteredSortedNotes_sorted_stable [OF consistent_codeUnitCompare h1 h2 ev]
  have "[[noteB, noteA], [noteA, noteB]] ! 1 = visibleNotes codeUnitCompare ?s"
    and "sorted_wrt (\<lambda>a b. codeUnitCompare (title a) (title b) \<le> 0)
           ([[noteB, noteA], [noteA, noteB]] ! 1)"
    and "[[noteB, noteA], [noteA, noteB]] ! 0 = notes ?s"
    using sb by blast+
  with consistent_codeUnitCompare h1 ev ns show ?thesis
    by (simp add: storeAB_eq)
qed

end
